theory Spec2Isabelle
  imports Main "HOL-Library.Multiset"
begin

section \<open>Data model of the directory crawl worker\<close>

text \<open>
  The worker of \<^verbatim>\<open>src/workers/directory.ts\<close> runs against four external services: the
  relational store (Prisma), the counter store (Redis), the job queue (BullMQ) and the
  progress notifier (Pusher). Each service is a field of one explicit \<open>state\<close> record and
  every call of the source is a function from state to state. Logging has no effect on
  these services and is left out.
\<close>

text \<open>
  Modelled from the spec: the enum \<open>RepositoryStatus\<close> comes from the generated Prisma client,
  which is not among the sources. The worker names \<open>PROCESSING\<close>, \<open>SUCCESS\<close> and \<open>FAILED\<close>;
  the spec lists \<open>PENDING\<close> as the fourth member.
\<close>

datatype RepositoryStatus = PENDING | PROCESSING | SUCCESS | FAILED

text \<open>An item of a directory listing (\<open>GitHubContent\<close>): \<open>content\<close> may be absent.\<close>

record GitHubContent =
  gc_path :: string
  gc_name :: string
  gc_type :: string
  gc_content :: "string option"

text \<open>The payload of a queue job, \<open>job.data\<close>.\<close>

record job =
  job_owner :: string
  job_repo :: string
  job_repositoryId :: string
  job_path :: string

text \<open>
  The \<open>data\<close> object of \<open>prisma.directory.create\<close>, the directory row the store makes of
  it by adding an identifier, and a row of the table \<open>file\<close>. A reference that is \<open>null\<close>
  is \<open>None\<close>.
\<close>

record directory_data =
  dir_path :: string
  dir_repositoryId :: string
  dir_parentId :: "string option"

record directory_row = directory_data +
  dir_id :: string

record file_row =
  file_path :: string
  file_name :: string
  file_content :: string
  file_repositoryId :: string
  file_directoryId :: "string option"

text \<open>
  One call of \<open>prisma.$transaction\<close>, as the store sees it: the rows it was asked to create
  and whether the transaction committed. The log of these calls is what the claims about
  batches speak of.
\<close>

datatype tx = DirectoryTx "directory_data list" bool | FileTx "file_row list" bool

datatype error = FetchError | TransactionError | RedisError | QueueError | RecordNotFound

text \<open>What the job processor resolves to: the result object, or \<open>undefined\<close>.\<close>

datatype job_result = Processed nat | Undefined

type_synonym update = "string \<times> RepositoryStatus \<times> string"

record state =
  repositories :: "string \<rightharpoonup> RepositoryStatus"
  directories :: "directory_row list"
  files :: "file_row list"
  txLog :: "tx list"
  redis :: "string \<rightharpoonup> int"
  queue :: "job list"
  completedEvents :: "job list"
  failedEvents :: "job list"
  updates :: "update list"

text \<open>
  The environment: what the external collaborators answer. \<open>fetchGithubContent\<close> is the
  content source; \<open>FILE_BATCH_SIZE\<close> is the constant of \<open>lib/constants\<close>, which is not among
  the sources; \<open>new_id n\<close> is the identifier the store gives to the \<open>n\<close>-th directory row it
  creates. The remaining fields say which calls of a job raise: the directory transaction,
  the transaction of the \<open>i\<close>-th file batch, and the \<open>incr\<close> and \<open>add\<close> calls for the \<open>i\<close>-th
  subdirectory.
\<close>

record env =
  fetchGithubContent :: "string \<Rightarrow> string \<Rightarrow> string \<Rightarrow> string \<Rightarrow> error + GitHubContent list"
  FILE_BATCH_SIZE :: nat
  new_id :: "nat \<Rightarrow> string"
  directory_tx_fails :: "job \<Rightarrow> bool"
  file_tx_fails :: "job \<Rightarrow> nat \<Rightarrow> bool"
  incr_fails :: "job \<Rightarrow> nat \<Rightarrow> bool"
  add_fails :: "job \<Rightarrow> nat \<Rightarrow> bool"

section \<open>Strings\<close>

text \<open>\<open>s.split(c)\<close> for a one-character separator: the empty string gives one empty part.\<close>

fun split :: "char \<Rightarrow> string \<Rightarrow> string list" where
  "split c [] = [[]]"
| "split c (x # xs) =
     (if x = c then [] # split c xs
      else (x # hd (split c xs)) # tl (split c xs))"

text \<open>\<open>parts.join(sep)\<close>.\<close>

fun join :: "string \<Rightarrow> string list \<Rightarrow> string" where
  "join sep [] = []"
| "join sep [p] = p"
| "join sep (p # q # ps) = p @ sep @ join sep (q # ps)"

text \<open>\<open>p.split("/").slice(0, -1).join("/")\<close>, and the same with \<open>pop()\<close>: the containing path.\<close>

definition parent_path :: "string \<Rightarrow> string" where
  "parent_path p = join ''/'' (butlast (split CHR ''/'' p))"

text \<open>\<open>path || "root"\<close>: the empty string is falsy.\<close>

definition or_root :: "string \<Rightarrow> string" where
  "or_root p = (if p = [] then ''root'' else p)"

text \<open>\<open>row?.id || null\<close>: an absent row and an empty identifier both give \<open>null\<close>.\<close>

definition id_or_null :: "directory_row option \<Rightarrow> string option" where
  "id_or_null r =
     (case r of None \<Rightarrow> None
      | Some d \<Rightarrow> if dir_id d = [] then None else Some (dir_id d))"

text \<open>A number inside a template literal: its decimal digits.\<close>

definition digit :: "nat \<Rightarrow> char" where
  "digit n = ''0123456789'' ! n"

fun string_of_nat :: "nat \<Rightarrow> string" where
  "string_of_nat n =
     (if n < 10 then [digit n] else string_of_nat (n div 10) @ [digit (n mod 10)])"

declare string_of_nat.simps [simp del]

section \<open>The services\<close>

text \<open>\<open>sendProcessingUpdate(repositoryId, {status, message})\<close>: best effort, never raises.\<close>

definition sendProcessingUpdate :: "state \<Rightarrow> string \<Rightarrow> RepositoryStatus \<Rightarrow> string \<Rightarrow> state" where
  "sendProcessingUpdate s repositoryId st msg =
     s\<lparr>updates := updates s @ [(repositoryId, st, msg)]\<rparr>"

text \<open>The counter key \<open>repo:${repositoryId}:pending_jobs\<close>.\<close>

definition pending_jobs_key :: "string \<Rightarrow> string" where
  "pending_jobs_key repositoryId = ''repo:'' @ repositoryId @ '':pending_jobs''"

text \<open>
  Redis \<open>INCR\<close> and \<open>DECR\<close>: one indivisible command each, a missing key counts as 0, the
  reply is the new value. Counters are unbounded integers here; Redis refuses to leave the
  64-bit range, which no run reaches.
\<close>

definition counter :: "state \<Rightarrow> string \<Rightarrow> int" where
  "counter s k = (case redis s k of None \<Rightarrow> 0 | Some v \<Rightarrow> v)"

definition incr :: "state \<Rightarrow> string \<Rightarrow> int \<times> state" where
  "incr s k = (counter s k + 1, s\<lparr>redis := (redis s)(k \<mapsto> counter s k + 1)\<rparr>)"

definition decr :: "state \<Rightarrow> string \<Rightarrow> int \<times> state" where
  "decr s k = (counter s k - 1, s\<lparr>redis := (redis s)(k \<mapsto> counter s k - 1)\<rparr>)"

text \<open>
  \<open>prisma.repository.findUnique\<close> selects the status, and \<open>prisma.repository.update\<close> sets
  it; \<open>update\<close> raises when no row has the identifier.
\<close>

definition findUnique :: "state \<Rightarrow> string \<Rightarrow> RepositoryStatus option" where
  "findUnique s repositoryId = repositories s repositoryId"

definition repository_update :: "state \<Rightarrow> string \<Rightarrow> RepositoryStatus \<Rightarrow> error + state" where
  "repository_update s repositoryId st =
     (case repositories s repositoryId of
        None \<Rightarrow> Inl RecordNotFound
      | Some _ \<Rightarrow> Inr (s\<lparr>repositories := (repositories s)(repositoryId \<mapsto> st)\<rparr>))"

section \<open>The completion handlers\<close>

text \<open>
  \<open>directoryWorker.on("completed", ...)\<close>: decrement the counter, read the status, and mark
  the repository \<open>SUCCESS\<close> when the counter reached zero while the status is \<open>PROCESSING\<close>.
\<close>

definition completion_message :: string where
  "completion_message = ''All directories and files have been processed.''"

definition on_completed :: "state \<Rightarrow> job \<Rightarrow> state" where
  "on_completed s j =
     (let repositoryId = job_repositoryId j;
          (remainingJobs, s1) = decr s (pending_jobs_key repositoryId);
          repository = findUnique s1 repositoryId
      in if remainingJobs = 0 \<and> repository = Some PROCESSING
         then (case repository_update s1 repositoryId SUCCESS of
                 Inl e \<Rightarrow> s1
               | Inr s2 \<Rightarrow> sendProcessingUpdate s2 repositoryId SUCCESS completion_message)
         else s1)"

text \<open>\<open>directoryWorker.on("failed", ...)\<close> logs and does nothing else.\<close>

definition on_failed :: "state \<Rightarrow> job \<Rightarrow> state" where
  "on_failed s j = s"

section \<open>Batch persistence\<close>

text \<open>\<open>xs.slice(a, b)\<close> for \<open>0 \<le> a \<le> b\<close>: the end is clamped to the length.\<close>

definition slice :: "'a list \<Rightarrow> nat \<Rightarrow> nat \<Rightarrow> 'a list" where
  "slice xs a b = take (b - a) (drop a xs)"

text \<open>
  The first loop of \<open>processFilesInBatches\<close>:
  \<^verbatim>\<open>for (let i = 0; i < files.length; i += FILE_BATCH_SIZE) fileBatches.push(files.slice(i, i + FILE_BATCH_SIZE))\<close>.
  With a batch size of 0 and a file to save it never ends: the value is \<open>None\<close>.
\<close>

partial_function (option) fileBatches_loop ::
  "nat \<Rightarrow> 'a list \<Rightarrow> nat \<Rightarrow> 'a list list \<Rightarrow> 'a list list option" where
  "fileBatches_loop B fs i fileBatches =
     (if i < length fs
      then fileBatches_loop B fs (i + B) (fileBatches @ [slice fs i (i + B)])
      else Some fileBatches)"

declare fileBatches_loop.simps [code]

text \<open>The \<open>data\<close> of \<open>prisma.file.create\<close>; \<open>file.content || ""\<close>.\<close>

definition file_create :: "string \<Rightarrow> string option \<Rightarrow> GitHubContent \<Rightarrow> file_row" where
  "file_create repositoryId directoryId f =
     \<lparr>file_path = gc_path f, file_name = gc_name f,
      file_content = (case gc_content f of None \<Rightarrow> [] | Some c \<Rightarrow> c),
      file_repositoryId = repositoryId, file_directoryId = directoryId\<rparr>"

text \<open>
  \<open>prisma.$transaction\<close> over file creations: all rows or none. The flag says whether the
  store refuses the transaction.
\<close>

definition file_transaction :: "bool \<Rightarrow> state \<Rightarrow> file_row list \<Rightarrow> (error + unit) \<times> state" where
  "file_transaction fails s rows =
     (if fails then (Inl TransactionError, s\<lparr>txLog := txLog s @ [FileTx rows False]\<rparr>)
      else (Inr (), s\<lparr>files := files s @ rows, txLog := txLog s @ [FileTx rows True]\<rparr>))"

definition saved_batch_message :: "nat \<Rightarrow> nat \<Rightarrow> nat \<Rightarrow> string \<Rightarrow> string" where
  "saved_batch_message i nBatches n currentPath =
     ''Saved batch '' @ string_of_nat (i + 1) @ ''/'' @ string_of_nat nBatches @ '' ('' @
     string_of_nat n @ '' files) for '' @ or_root currentPath"

text \<open>
  The second loop, from batch \<open>i\<close> on: one transaction and one progress update per batch;
  a transaction that raises ends the loop.
\<close>

fun save_batches ::
  "(nat \<Rightarrow> bool) \<Rightarrow> string \<Rightarrow> string \<Rightarrow> string option \<Rightarrow> nat \<Rightarrow> nat \<Rightarrow>
   GitHubContent list list \<Rightarrow> state \<Rightarrow> (error + unit) \<times> state" where
  "save_batches fails repositoryId currentPath directoryId nBatches i [] s = (Inr (), s)"
| "save_batches fails repositoryId currentPath directoryId nBatches i (batch # rest) s =
     (case file_transaction (fails i) s (map (file_create repositoryId directoryId) batch) of
        (Inl e, s1) \<Rightarrow> (Inl e, s1)
      | (Inr _, s1) \<Rightarrow>
          save_batches fails repositoryId currentPath directoryId nBatches (Suc i) rest
            (sendProcessingUpdate s1 repositoryId PROCESSING
               (saved_batch_message i nBatches (length batch) currentPath)))"

definition start_message :: "nat \<Rightarrow> string \<Rightarrow> string" where
  "start_message n currentPath =
     ''Processing '' @ string_of_nat n @ '' files in batches for '' @ or_root currentPath"

definition finish_message :: "nat \<Rightarrow> string \<Rightarrow> string" where
  "finish_message n currentPath =
     ''Finished processing '' @ string_of_nat n @ '' files in '' @ or_root currentPath"

definition failure_message :: "string \<Rightarrow> string" where
  "failure_message currentPath =
     ''Failed to save files in '' @ or_root currentPath @ '' --handleLargeFileSet''"

text \<open>
  \<open>processFilesInBatches\<close>: the \<open>try\<close> block (the start update, the two loops, the
  \<open>SUCCESS\<close> update) and the \<open>catch\<close> block, which sends a \<open>FAILED\<close> update and throws the
  error again.
\<close>

definition processFilesInBatches ::
  "nat \<Rightarrow> (nat \<Rightarrow> bool) \<Rightarrow> state \<Rightarrow> GitHubContent list \<Rightarrow> string \<Rightarrow> string \<Rightarrow>
   string option \<Rightarrow> ((error + unit) \<times> state) option" where
  "processFilesInBatches B fails s fs repositoryId currentPath directoryId =
     (let s1 = sendProcessingUpdate s repositoryId PROCESSING
                 (start_message (length fs) currentPath)
      in case fileBatches_loop B fs 0 [] of
           None \<Rightarrow> None
         | Some fileBatches \<Rightarrow>
             (case save_batches fails repositoryId currentPath directoryId
                     (length fileBatches) 0 fileBatches s1 of
                (Inl e, s2) \<Rightarrow>
                  Some (Inl e, sendProcessingUpdate s2 repositoryId FAILED
                                 (failure_message currentPath))
              | (Inr _, s2) \<Rightarrow>
                  Some (Inr (), sendProcessingUpdate s2 repositoryId SUCCESS
                                  (finish_message (length fs) currentPath))))"

text \<open>
  The batches the first loop builds, by index: batch \<open>k\<close> is \<open>files.slice(k * B, k * B + B)\<close>,
  and there are \<open>\<lceil>n / B\<rceil>\<close> of them.
\<close>

definition batch :: "nat \<Rightarrow> 'a list \<Rightarrow> nat \<Rightarrow> 'a list" where
  "batch B fs = (\<lambda>k. slice fs (k * B) (k * B + B))"

definition batch_count :: "nat \<Rightarrow> nat \<Rightarrow> nat" where
  "batch_count B n = (n + B - 1) div B"

section \<open>The job processor\<close>

text \<open>
  The callback of \<open>directories.map\<close> that builds the creations: the parent is looked up in
  \<open>directoryMap\<close> as it is when the callback runs.
\<close>

definition directoryData ::
  "(string \<rightharpoonup> directory_row) \<Rightarrow> string \<Rightarrow> GitHubContent list \<Rightarrow> directory_data list" where
  "directoryData directoryMap repositoryId dirs =
     map (\<lambda>dir.
            let parentPath = parent_path (gc_path dir);
                parentDir = directoryMap parentPath
            in \<lparr>dir_path = gc_path dir, dir_repositoryId = repositoryId,
                dir_parentId = id_or_null parentDir\<rparr>) dirs"

text \<open>The store numbers the rows it creates: the next row is number \<open>length (directories s)\<close>.\<close>

definition created_rows :: "env \<Rightarrow> nat \<Rightarrow> directory_data list \<Rightarrow> directory_row list" where
  "created_rows e n ds =
     map (\<lambda>(k, d). \<lparr>dir_path = dir_path d, dir_repositoryId = dir_repositoryId d,
                     dir_parentId = dir_parentId d, dir_id = new_id e k\<rparr>)
         (zip [n ..< n + length ds] ds)"

text \<open>\<open>prisma.$transaction(directoryData)\<close>: all rows or none; it returns the created rows.\<close>

definition directory_transaction ::
  "env \<Rightarrow> bool \<Rightarrow> state \<Rightarrow> directory_data list \<Rightarrow> (error + directory_row list) \<times> state" where
  "directory_transaction e fails s ds =
     (if fails then (Inl TransactionError, s\<lparr>txLog := txLog s @ [DirectoryTx ds False]\<rparr>)
      else let created = created_rows e (length (directories s)) ds
           in (Inr created,
               s\<lparr>directories := directories s @ created,
                 txLog := txLog s @ [DirectoryTx ds True]\<rparr>))"

text \<open>\<open>createdDirectories.forEach((directory) => directoryMap.set(directory.path, directory))\<close>.\<close>

definition set_all :: "(string \<rightharpoonup> directory_row) \<Rightarrow> directory_row list \<Rightarrow> (string \<rightharpoonup> directory_row)" where
  "set_all directoryMap created = foldl (\<lambda>m d. m(dir_path d \<mapsto> d)) directoryMap created"

text \<open>
  The calls a job makes on the counter store and on the queue. The callback run for the
  \<open>i\<close>-th subdirectory awaits \<open>incr\<close> and then \<open>directoryQueue.add\<close>; a call that raises has
  no effect and ends the callback. \<open>child_task\<close> gives the calls that took effect, in
  order, and whether the callback was rejected.
\<close>

datatype event = Incr string | Add job

definition child_job :: "job \<Rightarrow> GitHubContent \<Rightarrow> job" where
  "child_job j dir =
     \<lparr>job_owner = job_owner j, job_repo = job_repo j,
      job_repositoryId = job_repositoryId j, job_path = gc_path dir\<rparr>"

definition child_task :: "env \<Rightarrow> job \<Rightarrow> nat \<times> GitHubContent \<Rightarrow> event list \<times> bool" where
  "child_task e j = (\<lambda>(i, dir).
     if incr_fails e j i then ([], True)
     else if add_fails e j i then ([Incr (pending_jobs_key (job_repositoryId j))], True)
     else ([Incr (pending_jobs_key (job_repositoryId j)), Add (child_job j dir)], False))"

definition apply_event :: "state \<Rightarrow> event \<Rightarrow> state" where
  "apply_event s ev =
     (case ev of Incr k \<Rightarrow> snd (incr s k) | Add j \<Rightarrow> s\<lparr>queue := queue s @ [j]\<rparr>)"

text \<open>
  \<open>Promise.all(directories.map(async (dir) => ...))\<close>: every callback runs to its end
  whether or not another one is rejected, and the whole is rejected when one of them is.
  The callbacks are run here one after the other; their calls commute, so the state
  reached does not depend on how they interleave.
\<close>

definition enqueue_children :: "env \<Rightarrow> state \<Rightarrow> job \<Rightarrow> GitHubContent list \<Rightarrow> (error + unit) \<times> state" where
  "enqueue_children e s j dirs =
     (let tasks = map (child_task e j) (zip [0 ..< length dirs] dirs);
          s1 = foldl apply_event s (concat (map fst tasks))
      in (if list_ex snd tasks then Inl QueueError else Inr (), s1))"



text \<open>The messages of the processor's three kinds of update.\<close>

definition processing_message :: "string \<Rightarrow> string" where
  "processing_message path = ''Processing directory: '' @ or_root path"

definition finished_message :: "string \<Rightarrow> string" where
  "finished_message path = ''Finished processing directory: '' @ or_root path"

definition failed_message :: "string \<Rightarrow> string" where
  "failed_message path = ''Failed to process directory: '' @ or_root path"

text \<open>
  The \<open>try\<close> block of the processor, steps 1 to 7. \<open>Inr n\<close>: the block reached its
  \<open>return\<close> with \<open>n\<close> items processed; \<open>Inl err\<close>: a call raised, and the state is the one
  the \<open>catch\<close> block starts from; \<open>None\<close>: the block never returns.
\<close>

definition dirs_of :: "GitHubContent list \<Rightarrow> GitHubContent list" where
  "dirs_of items = filter (\<lambda>item. gc_type item = ''dir'') items"

definition files_of :: "GitHubContent list \<Rightarrow> GitHubContent list" where
  "files_of items = filter (\<lambda>item. gc_type item = ''file'') items"

text \<open>
  "Get directoryId for current path": the containing path of the first file, or the empty
  path when there is no file, looked up in \<open>directoryMap\<close>.
\<close>

definition current_dir_path :: "GitHubContent list \<Rightarrow> string" where
  "current_dir_path fs =
     (let pathParts = (case fs of [] \<Rightarrow> [] | f # _ \<Rightarrow> split CHR ''/'' (gc_path f))
      in join ''/'' (butlast pathParts))"

definition lookup_directoryId :: "(string \<rightharpoonup> directory_row) \<Rightarrow> GitHubContent list \<Rightarrow> string option" where
  "lookup_directoryId directoryMap fs =
     (let dirPath = current_dir_path fs in id_or_null (directoryMap dirPath))"

definition try_block :: "env \<Rightarrow> state \<Rightarrow> job \<Rightarrow> ((error + nat) \<times> state) option" where
  "try_block e s j =
     (let repositoryId = job_repositoryId j; path = job_path j in
      case fetchGithubContent e (job_owner j) (job_repo j) path repositoryId of
        Inl err \<Rightarrow> Some (Inl err, s)
      | Inr items \<Rightarrow>
         (let s1 = sendProcessingUpdate s repositoryId PROCESSING (processing_message path);
              dirs = dirs_of items;
              fs = files_of items;
              directoryMap = Map.empty
          in case directory_transaction e (directory_tx_fails e j) s1
                    (directoryData directoryMap repositoryId dirs) of
               (Inl err, s2) \<Rightarrow> Some (Inl err, s2)
             | (Inr createdDirectories, s2) \<Rightarrow>
                (let directoryMap' = set_all directoryMap createdDirectories;
                     directoryId = lookup_directoryId directoryMap' fs
                 in case processFilesInBatches (FILE_BATCH_SIZE e) (file_tx_fails e j) s2 fs
                           repositoryId path directoryId of
                      None \<Rightarrow> None
                    | Some (Inl err, s3) \<Rightarrow> Some (Inl err, s3)
                    | Some (Inr _, s3) \<Rightarrow>
                       (case enqueue_children e s3 j dirs of
                          (Inl err, s4) \<Rightarrow> Some (Inl err, s4)
                        | (Inr _, s4) \<Rightarrow>
                            Some (Inr (length items),
                                  sendProcessingUpdate s4 repositoryId PROCESSING
                                    (finished_message path))))))"

text \<open>
  The \<open>catch\<close> block of the processor: mark the repository \<open>FAILED\<close>, notify, and fall off
  the end of the function. Nothing is thrown again, so the processor resolves to
  \<open>undefined\<close>; only an \<open>update\<close> that raises makes the processor itself raise.
\<close>

definition catch_block :: "state \<Rightarrow> job \<Rightarrow> (error + job_result) \<times> state" where
  "catch_block s j =
     (case repository_update s (job_repositoryId j) FAILED of
        Inl e \<Rightarrow> (Inl e, s)
      | Inr s1 \<Rightarrow>
          (Inr Undefined,
           sendProcessingUpdate s1 (job_repositoryId j) FAILED (failed_message (job_path j))))"

text \<open>
  The processor of \<open>directoryWorker\<close>. \<open>Inr\<close> is a processor that resolved (the queue then
  emits \<open>completed\<close>), \<open>Inl\<close> one that raised (the queue emits \<open>failed\<close>); \<open>None\<close> is a
  processor that never returns.
\<close>

definition directoryWorker :: "env \<Rightarrow> state \<Rightarrow> job \<Rightarrow> ((error + job_result) \<times> state) option" where
  "directoryWorker e s j =
     (case try_block e s j of
        None \<Rightarrow> None
      | Some (Inl err, s1) \<Rightarrow> Some (catch_block s1 j)
      | Some (Inr n, s1) \<Rightarrow> Some (Inr (Processed n), s1))"

section \<open>The queue\<close>

text \<open>
  What the queue does with the worker, one step at a time: \<open>Process i\<close> hands the \<open>i\<close>-th
  waiting job to the processor and records the event the queue will emit for it;
  \<open>Complete i\<close> and \<open>Fail i\<close> deliver the \<open>i\<close>-th pending \<open>completed\<close> or \<open>failed\<close> event to
  its handler. Any waiting job and any pending event may come next, so a list of actions
  is one order in which workers dequeue jobs and handlers run. A step is \<open>None\<close> when the
  list has no such entry, or when the processor never returns. The processor and each
  handler run as one step.
\<close>

datatype action = Process nat | Complete nat | Fail nat

definition remove_nth :: "nat \<Rightarrow> 'a list \<Rightarrow> 'a list" where
  "remove_nth i xs = take i xs @ drop (Suc i) xs"

definition step :: "env \<Rightarrow> state \<Rightarrow> action \<Rightarrow> state option" where
  "step e s a =
     (case a of
        Process i \<Rightarrow>
          if i < length (queue s)
          then (case directoryWorker e (s\<lparr>queue := remove_nth i (queue s)\<rparr>) (queue s ! i) of
                  None \<Rightarrow> None
                | Some (Inr r, s1) \<Rightarrow>
                    Some (s1\<lparr>completedEvents := completedEvents s1 @ [queue s ! i]\<rparr>)
                | Some (Inl err, s1) \<Rightarrow>
                    Some (s1\<lparr>failedEvents := failedEvents s1 @ [queue s ! i]\<rparr>))
          else None
      | Complete i \<Rightarrow>
          if i < length (completedEvents s)
          then Some (on_completed (s\<lparr>completedEvents := remove_nth i (completedEvents s)\<rparr>)
                       (completedEvents s ! i))
          else None
      | Fail i \<Rightarrow>
          if i < length (failedEvents s)
          then Some (on_failed (s\<lparr>failedEvents := remove_nth i (failedEvents s)\<rparr>)
                       (failedEvents s ! i))
          else None)"

fun exec :: "env \<Rightarrow> state \<Rightarrow> action list \<Rightarrow> state option" where
  "exec e s [] = Some s"
| "exec e s (a # as) = (case step e s a of None \<Rightarrow> None | Some s1 \<Rightarrow> exec e s1 as)"

text \<open>
  Two observations of a state, for a run \<open>r\<close>: the jobs of the run that are waiting or whose
  \<open>completed\<close> event is still pending, and the number of times the handler of \<open>completed\<close>
  has declared the run complete, read off the updates it sent.
\<close>

definition jobs_of :: "string \<Rightarrow> job list \<Rightarrow> nat" where
  "jobs_of r js = length (filter (\<lambda>j. job_repositoryId j = r) js)"

definition outstanding :: "string \<Rightarrow> state \<Rightarrow> nat" where
  "outstanding r s = jobs_of r (queue s) + jobs_of r (completedEvents s)"

definition completions :: "string \<Rightarrow> state \<Rightarrow> nat" where
  "completions r s = length (filter (\<lambda>u. u = (r, SUCCESS, completion_message)) (updates s))"

text \<open>The jobs a sequence of calls adds to the queue.\<close>

definition added_jobs :: "event list \<Rightarrow> job list" where
  "added_jobs evs = concat (map (\<lambda>ev. case ev of Incr k \<Rightarrow> [] | Add c \<Rightarrow> [c]) evs)"

section \<open>Observing a run\<close>

text \<open>
  The persisted state as a reader of the tables sees it: every directory and file row with
  its reference followed to the row it names. Identifiers themselves are not part of the
  observation, since the store hands them out in the order in which rows arrive.
\<close>

datatype reference = NoReference | Unresolved string | Row string

definition resolve :: "state \<Rightarrow> string option \<Rightarrow> reference" where
  "resolve s ref =
     (case ref of
        None \<Rightarrow> NoReference
      | Some i \<Rightarrow>
          (case find (\<lambda>d. dir_id d = i) (directories s) of
             None \<Rightarrow> Unresolved i
           | Some d \<Rightarrow> Row (dir_path d)))"

type_synonym directory_node = "string \<times> string \<times> reference"

type_synonym file_node = "string \<times> string \<times> string \<times> string \<times> reference"

definition directory_nodes :: "state \<Rightarrow> directory_node multiset" where
  "directory_nodes s =
     mset (map (\<lambda>d. (dir_path d, dir_repositoryId d, resolve s (dir_parentId d)))
             (directories s))"

definition file_nodes :: "state \<Rightarrow> file_node multiset" where
  "file_nodes s =
     mset (map (\<lambda>f. (file_path f, file_name f, file_content f, file_repositoryId f,
                       resolve s (file_directoryId f)))
             (files s))"

text \<open>
  What the store guarantees about its tables: the \<open>n\<close>-th directory row carries the \<open>n\<close>-th
  identifier, and every reference names a row of the directory table.
\<close>

definition store_ok :: "env \<Rightarrow> state \<Rightarrow> bool" where
  "store_ok e s \<longleftrightarrow>
     map dir_id (directories s) = map (new_id e) [0 ..< length (directories s)]"

definition refs_closed :: "state \<Rightarrow> bool" where
  "refs_closed s \<longleftrightarrow>
     (\<forall>d \<in> set (directories s). \<forall>i. dir_parentId d = Some i \<longrightarrow>
        i \<in> dir_id ` set (directories s)) \<and>
     (\<forall>f \<in> set (files s). \<forall>i. file_directoryId f = Some i \<longrightarrow>
        i \<in> dir_id ` set (directories s))"

text \<open>A run has come to rest when no job is waiting and no event is pending.\<close>

definition quiescent :: "state \<Rightarrow> bool" where
  "quiescent s \<longleftrightarrow> queue s = [] \<and> completedEvents s = [] \<and> failedEvents s = []"

text \<open>The jobs handed to the processor along an execution, in order.\<close>

fun processed :: "env \<Rightarrow> state \<Rightarrow> action list \<Rightarrow> job list" where
  "processed e s [] = []"
| "processed e s (a # as) =
     (case step e s a of
        None \<Rightarrow> []
      | Some s1 \<Rightarrow> (case a of Process i \<Rightarrow> [queue s ! i] | _ \<Rightarrow> []) @ processed e s1 as)"

text \<open>
  What one job does, as a function of the environment and the job alone: how far its
  \<open>try\<close> block gets, the files its committed batches hold, the calls of step 6 that take
  effect, and the rows it leaves in the tables as an observer sees them.
\<close>

fun committed :: "(nat \<Rightarrow> bool) \<Rightarrow> nat \<Rightarrow> 'a list list \<Rightarrow> 'a list" where
  "committed fails i [] = []"
| "committed fails i (b # bs) = (if fails i then [] else b @ committed fails (Suc i) bs)"

fun batches_ok :: "(nat \<Rightarrow> bool) \<Rightarrow> nat \<Rightarrow> 'a list list \<Rightarrow> bool" where
  "batches_ok fails i [] = True"
| "batches_ok fails i (b # bs) = (\<not> fails i \<and> batches_ok fails (Suc i) bs)"

definition listing :: "env \<Rightarrow> job \<Rightarrow> error + GitHubContent list" where
  "listing e j =
     fetchGithubContent e (job_owner j) (job_repo j) (job_path j) (job_repositoryId j)"

definition job_items :: "env \<Rightarrow> job \<Rightarrow> GitHubContent list" where
  "job_items e j = (case listing e j of Inl err \<Rightarrow> [] | Inr items \<Rightarrow> items)"

definition child_events :: "env \<Rightarrow> job \<Rightarrow> GitHubContent list \<Rightarrow> event list" where
  "child_events e j dirs = concat (map (fst \<circ> child_task e j) (zip [0 ..< length dirs] dirs))"

definition child_rejected :: "env \<Rightarrow> job \<Rightarrow> GitHubContent list \<Rightarrow> bool" where
  "child_rejected e j dirs = list_ex snd (map (child_task e j) (zip [0 ..< length dirs] dirs))"

datatype stage = FetchFailed | DirectoriesFailed | FilesFailed | ChildrenFailed | Finished

definition stage_of :: "env \<Rightarrow> job \<Rightarrow> stage option" where
  "stage_of e j =
     (case listing e j of
        Inl err \<Rightarrow> Some FetchFailed
      | Inr items \<Rightarrow>
          if directory_tx_fails e j then Some DirectoriesFailed
          else (case fileBatches_loop (FILE_BATCH_SIZE e) (files_of items) 0 [] of
                  None \<Rightarrow> None
                | Some bs \<Rightarrow>
                    if \<not> batches_ok (file_tx_fails e j) 0 bs then Some FilesFailed
                    else if child_rejected e j (dirs_of items) then Some ChildrenFailed
                    else Some Finished))"

definition job_events :: "env \<Rightarrow> job \<Rightarrow> event list" where
  "job_events e j =
     (if stage_of e j = Some ChildrenFailed \<or> stage_of e j = Some Finished
      then child_events e j (dirs_of (job_items e j)) else [])"

definition job_children :: "env \<Rightarrow> job \<Rightarrow> job list" where
  "job_children e j = added_jobs (job_events e j)"

definition job_increments :: "env \<Rightarrow> job \<Rightarrow> nat" where
  "job_increments e j =
     length (filter (\<lambda>ev. ev = Incr (pending_jobs_key (job_repositoryId j))) (job_events e j))"

definition tables_reached :: "env \<Rightarrow> job \<Rightarrow> bool" where
  "tables_reached e j \<longleftrightarrow>
     stage_of e j = Some FilesFailed \<or> stage_of e j = Some ChildrenFailed \<or>
     stage_of e j = Some Finished"

definition job_directories :: "env \<Rightarrow> job \<Rightarrow> directory_node multiset" where
  "job_directories e j =
     (if tables_reached e j
      then mset (map (\<lambda>d. (gc_path d, job_repositoryId j, NoReference)) (dirs_of (job_items e j)))
      else {#})"

definition files_reference :: "GitHubContent list \<Rightarrow> reference" where
  "files_reference items =
     (if current_dir_path (files_of items) \<in> gc_path ` set (dirs_of items)
      then Row (current_dir_path (files_of items)) else NoReference)"

definition job_files :: "env \<Rightarrow> job \<Rightarrow> file_node multiset" where
  "job_files e j =
     (if tables_reached e j
      then (case fileBatches_loop (FILE_BATCH_SIZE e) (files_of (job_items e j)) 0 [] of
              None \<Rightarrow> {#}
            | Some bs \<Rightarrow>
                mset (map (\<lambda>f. (gc_path f, gc_name f,
                                  (case gc_content f of None \<Rightarrow> [] | Some c \<Rightarrow> c),
                                  job_repositoryId j, files_reference (job_items e j)))
                        (committed (file_tx_fails e j) 0 bs)))
      else {#})"

text \<open>The rows themselves, when the directory table holds \<open>n\<close> rows before the job.\<close>

definition job_directory_rows :: "env \<Rightarrow> job \<Rightarrow> nat \<Rightarrow> directory_row list" where
  "job_directory_rows e j n =
     (if tables_reached e j
      then created_rows e n (directoryData Map.empty (job_repositoryId j) (dirs_of (job_items e j)))
      else [])"

definition job_file_rows :: "env \<Rightarrow> job \<Rightarrow> nat \<Rightarrow> file_row list" where
  "job_file_rows e j n =
     (if tables_reached e j
      then (case fileBatches_loop (FILE_BATCH_SIZE e) (files_of (job_items e j)) 0 [] of
              None \<Rightarrow> []
            | Some bs \<Rightarrow>
                map (file_create (job_repositoryId j)
                       (lookup_directoryId (set_all Map.empty (job_directory_rows e j n))
                          (files_of (job_items e j))))
                  (committed (file_tx_fails e j) 0 bs))
      else [])"

text \<open>
  The crawl tree, generation by generation: the jobs a multiset of jobs enqueues, and all
  the jobs of the first \<open>n\<close> generations that grow from a multiset of waiting jobs.
\<close>

definition next_generation :: "env \<Rightarrow> job multiset \<Rightarrow> job multiset" where
  "next_generation e Q = sum_mset (image_mset (\<lambda>j. mset (job_children e j)) Q)"

fun generations :: "env \<Rightarrow> nat \<Rightarrow> job multiset \<Rightarrow> job multiset" where
  "generations e 0 Q = {#}"
| "generations e (Suc n) Q = Q + generations e n (next_generation e Q)"

text \<open>
  The status a run \<open>r\<close> ends with, read off the state \<open>s\<close> a run starts from and the jobs
  \<open>js\<close> that are processed after it: a job of the run whose \<open>try\<close> block raises leaves
  \<open>FAILED\<close>; otherwise the run is declared complete when the counter, after all increments
  of these jobs and one decrement for each \<open>completed\<close> event, is zero.
\<close>

definition failing :: "env \<Rightarrow> string \<Rightarrow> job list \<Rightarrow> bool" where
  "failing e r js =
     list_ex (\<lambda>j. job_repositoryId j = r \<and> stage_of e j \<noteq> Some Finished) js"

definition increments :: "env \<Rightarrow> string \<Rightarrow> job list \<Rightarrow> int" where
  "increments e r js =
     sum_list (map (\<lambda>j. int (job_increments e j)) (filter (\<lambda>j. job_repositoryId j = r) js))"

definition final_status :: "env \<Rightarrow> string \<Rightarrow> state \<Rightarrow> job list \<Rightarrow> RepositoryStatus option" where
  "final_status e r s js =
     (case repositories s r of
        None \<Rightarrow> None
      | Some st \<Rightarrow>
          if failing e r js then Some FAILED
          else let c = int (jobs_of r (completedEvents s) + jobs_of r js)
               in if st = PROCESSING \<and> 0 < c \<and>
                     counter s (pending_jobs_key r) + increments e r js - c = 0
                  then Some SUCCESS else Some st)"

section \<open>A small repository\<close>

text \<open>
  The inputs the theorems below are evaluated on: a repository \<open>R1\<close> whose root holds a
  file and the directories \<open>src\<close> and \<open>docs\<close>; \<open>src\<close> holds a file and the directory
  \<open>src/lib\<close>, which holds one file; \<open>docs\<close> is empty. Any other path cannot be fetched.
\<close>

definition item :: "string \<Rightarrow> string \<Rightarrow> string \<Rightarrow> GitHubContent" where
  "item p n t = \<lparr>gc_path = p, gc_name = n, gc_type = t, gc_content = None\<rparr>"

definition demo_fetch :: "string \<Rightarrow> string \<Rightarrow> string \<Rightarrow> string \<Rightarrow> error + GitHubContent list" where
  "demo_fetch owner repo path repositoryId =
     (if path = [] then
        Inr [item ''README.md'' ''README.md'' ''file'', item ''src'' ''src'' ''dir'',
             item ''docs'' ''docs'' ''dir'']
      else if path = ''src'' then
        Inr [item ''src/main.ts'' ''main.ts'' ''file'', item ''src/lib'' ''lib'' ''dir'']
      else if path = ''src/lib'' then Inr [item ''src/lib/util.ts'' ''util.ts'' ''file'']
      else if path = ''docs'' then Inr []
      else Inl FetchError)"

definition demo_env :: env where
  "demo_env =
     \<lparr>fetchGithubContent = demo_fetch, FILE_BATCH_SIZE = 2,
      new_id = (\<lambda>n. ''d'' @ string_of_nat n),
      directory_tx_fails = (\<lambda>_. False), file_tx_fails = (\<lambda>_ _. False),
      incr_fails = (\<lambda>_ _. False), add_fails = (\<lambda>_ _. False)\<rparr>"

definition demo_job :: "string \<Rightarrow> job" where
  "demo_job p = \<lparr>job_owner = ''o'', job_repo = ''r'', job_repositoryId = ''R1'', job_path = p\<rparr>"

text \<open>The run as the initiator leaves it: status \<open>PROCESSING\<close>, counter 1, the root job waiting.\<close>

definition demo_init :: state where
  "demo_init =
     \<lparr>repositories = [''R1'' \<mapsto> PROCESSING], directories = [], files = [], txLog = [],
      redis = [pending_jobs_key ''R1'' \<mapsto> 1], queue = [demo_job []],
      completedEvents = [], failedEvents = [], updates = []\<rparr>"

text \<open>Three files of one directory, for a batch size of 2.\<close>

definition demo_files :: "GitHubContent list" where
  "demo_files =
     [item ''a.ts'' ''a.ts'' ''file'', item ''b.ts'' ''b.ts'' ''file'',
      item ''c.ts'' ''c.ts'' ''file'']"

text \<open>
  A second repository, in which both subdirectories of the root have a subdirectory of
  their own, so that the order in which the two are processed shows in the identifiers.
\<close>

definition tree_fetch :: "string \<Rightarrow> string \<Rightarrow> string \<Rightarrow> string \<Rightarrow> error + GitHubContent list" where
  "tree_fetch owner repo path repositoryId =
     (if path = [] then Inr [item ''a'' ''a'' ''dir'', item ''b'' ''b'' ''dir'']
      else if path = ''a'' then Inr [item ''a/f.ts'' ''f.ts'' ''file'', item ''a/x'' ''x'' ''dir'']
      else if path = ''b'' then Inr [item ''b/g.ts'' ''g.ts'' ''file'', item ''b/y'' ''y'' ''dir'']
      else if path = ''a/x'' \<or> path = ''b/y'' then Inr []
      else Inl FetchError)"

definition tree_env :: env where
  "tree_env = demo_env\<lparr>fetchGithubContent := tree_fetch\<rparr>"

section \<open>The completion handler decides on the counter and the status\<close>

lemma counter_decr [simp]: "counter (snd (decr s k)) k' = (if k' = k then counter s k - 1 else counter s k')"
  by (simp add: decr_def counter_def)

lemma counter_incr [simp]: "counter (snd (incr s k)) k' = (if k' = k then counter s k + 1 else counter s k')"
  by (simp add: incr_def counter_def)

text \<open>
  C1. The handler of \<open>completed\<close> decrements the counter of the run to \<open>v\<close>; it sets the
  status to \<open>SUCCESS\<close> and sends the \<open>SUCCESS\<close> update exactly when \<open>v = 0\<close> and the status it
  read is \<open>PROCESSING\<close>; otherwise neither the statuses nor the updates change. Nothing
  but the counter, the statuses and the updates is touched.
\<close>

theorem on_completed_transition:
  "let r = job_repositoryId j;
       v = counter s (pending_jobs_key r) - 1;
       s' = on_completed s j
   in counter s' (pending_jobs_key r) = v \<and>
      (if v = 0 \<and> repositories s r = Some PROCESSING
       then repositories s' = (repositories s)(r \<mapsto> SUCCESS) \<and>
            updates s' = updates s @ [(r, SUCCESS, completion_message)]
       else repositories s' = repositories s \<and> updates s' = updates s) \<and>
      s'\<lparr>redis := redis s, repositories := repositories s, updates := updates s\<rparr> = s"
  by (simp add: on_completed_def Let_def decr_def counter_def findUnique_def
      repository_update_def sendProcessingUpdate_def)

theorem on_completed_transition_witness:
  "repositories (on_completed demo_init (demo_job [])) ''R1'' = Some SUCCESS \<and>
   updates (on_completed demo_init (demo_job [])) = [(''R1'', SUCCESS, completion_message)] \<and>
   counter (on_completed demo_init (demo_job [])) (pending_jobs_key ''R1'') = 0"
  using on_completed_transition [where s = demo_init and j = "demo_job []"]
  by (simp add: Let_def demo_init_def demo_job_def counter_def)

section \<open>Batches\<close>

lemma batch_count_step: "0 < B \<Longrightarrow> 0 < n \<Longrightarrow> batch_count B n = Suc (batch_count B (n - B))"
proof -
  assume B: "0 < B" and n: "0 < n"
  have a: "n + B - 1 = (n - 1) + B" using n by simp
  have b: "((n - 1) + B) div B = Suc ((n - 1) div B)" using B div_add_self2 [of B "n - 1"] by simp
  show ?thesis
  proof (cases "B \<le> n")
    case True
    then have "n - B + B - 1 = n - 1" by simp
    then show ?thesis unfolding batch_count_def using a b by simp
  next
    case False
    then have "n - B + B - 1 = B - 1" by simp
    moreover have "(B - 1) div B = 0" using B by simp
    moreover have "(n - 1) div B = 0" using False n by simp
    ultimately show ?thesis unfolding batch_count_def using a b by simp
  qed
qed

lemma map_upt_shift: "map f [0 ..< Suc m] = f 0 # map (\<lambda>k. f (Suc k)) [0 ..< m]"
  by (metis map_upt_Suc)

lemma fileBatches_loop_eq:
  "0 < B \<Longrightarrow> fileBatches_loop B fs i acc =
     Some (acc @ map (\<lambda>k. slice fs (i + k * B) (i + k * B + B)) [0 ..< batch_count B (length fs - i)])"
proof (induction "length fs - i" arbitrary: i acc rule: less_induct)
  case less
  show ?case
  proof (cases "i < length fs")
    case True
    have m: "length fs - (i + B) < length fs - i" using True less.prems by simp
    have n: "batch_count B (length fs - i) = Suc (batch_count B (length fs - (i + B)))"
      using batch_count_step [of B "length fs - i"] True less.prems by simp
    show ?thesis
      apply (subst fileBatches_loop.simps)
      apply (simp add: True less.hyps [OF m less.prems] n map_upt_shift del: upt_Suc)
      apply (simp add: add.assoc add.commute add.left_commute)
      done
  next
    case False
    then show ?thesis
      using less.prems by (subst fileBatches_loop.simps) (simp add: batch_count_def)
  qed
qed


lemma save_batches_ok:
  "(\<forall>k < length bs. \<not> fails (i + k)) \<Longrightarrow>
   save_batches fails rid cp did nb i bs s =
     (Inr (),
      s\<lparr>files := files s @ concat (map (map (file_create rid did)) bs),
        txLog := txLog s @ map (\<lambda>c. FileTx (map (file_create rid did) c) True) bs,
        updates := updates s @
          map (\<lambda>k. (rid, PROCESSING, saved_batch_message (i + k) nb (length (bs ! k)) cp))
            [0 ..< length bs]\<rparr>)"
proof (induction bs arbitrary: i s)
  case Nil
  then show ?case by simp
next
  case (Cons b bs)
  have h0: "\<not> fails i" using Cons.prems by force
  have hs: "\<forall>k < length bs. \<not> fails (Suc i + k)" using Cons.prems by force
  show ?case
    by (simp add: file_transaction_def h0 Cons.IH [OF hs] sendProcessingUpdate_def
        map_upt_shift del: upt_Suc)
qed

lemma save_batches_fail:
  "k < length bs \<Longrightarrow> fails (i + k) \<Longrightarrow> (\<forall>k' < k. \<not> fails (i + k')) \<Longrightarrow>
   save_batches fails rid cp did nb i bs s =
     (Inl TransactionError,
      s\<lparr>files := files s @ concat (map (map (file_create rid did)) (take k bs)),
        txLog := txLog s @ map (\<lambda>c. FileTx (map (file_create rid did) c) True) (take k bs) @
                 [FileTx (map (file_create rid did) (bs ! k)) False],
        updates := updates s @
          map (\<lambda>k. (rid, PROCESSING, saved_batch_message (i + k) nb (length (bs ! k)) cp))
            [0 ..< k]\<rparr>)"
proof (induction bs arbitrary: i k s)
  case Nil
  then show ?case by simp
next
  case (Cons b bs)
  show ?case
  proof (cases k)
    case 0
    then show ?thesis using Cons.prems by (simp add: file_transaction_def)
  next
    case (Suc k')
    have h0: "\<not> fails i" using Cons.prems Suc by force
    have a: "k' < length bs" using Cons.prems Suc by simp
    have b: "fails (Suc i + k')" using Cons.prems Suc by simp
    have c: "\<forall>m < k'. \<not> fails (Suc i + m)" using Cons.prems(3) Suc by force
    show ?thesis
      by (simp add: Suc file_transaction_def h0 Cons.IH [OF a b c] sendProcessingUpdate_def
          map_upt_shift del: upt_Suc)
  qed
qed


lemma concat_slices:
  "0 < B \<Longrightarrow>
   concat (map (\<lambda>k. slice fs (i + k * B) (i + k * B + B)) [0 ..< batch_count B (length fs - i)]) =
   drop i fs"
proof (induction "length fs - i" arbitrary: i rule: less_induct)
  case less
  show ?case
  proof (cases "i < length fs")
    case True
    have m: "length fs - (i + B) < length fs - i" using True less.prems by simp
    have n: "batch_count B (length fs - i) = Suc (batch_count B (length fs - (i + B)))"
      using batch_count_step [of B "length fs - i"] True less.prems by simp
    have "concat (map (\<lambda>k. slice fs (i + B + k * B) (i + B + k * B + B))
            [0 ..< batch_count B (length fs - (i + B))]) = drop (i + B) fs"
      using less.hyps [OF m less.prems] .
    then have "concat (map (\<lambda>k. slice fs (i + Suc k * B) (i + Suc k * B + B))
            [0 ..< batch_count B (length fs - (i + B))]) = drop (i + B) fs"
      by (simp add: add.assoc add.commute add.left_commute)
    then show ?thesis
      unfolding n map_upt_shift
      apply (simp add: slice_def del: upt_Suc)
      by (metis add.commute append_take_drop_id drop_drop)
  next
    case False
    then show ?thesis using less.prems by (simp add: batch_count_def)
  qed
qed

lemma concat_batches:
  "0 < B \<Longrightarrow> concat (map (batch B fs) [0 ..< batch_count B (length fs)]) = fs"
  using concat_slices [of B fs 0] by (simp add: batch_def)

lemma fileBatches_eq:
  "0 < B \<Longrightarrow> fileBatches_loop B fs 0 [] = Some (map (batch B fs) [0 ..< batch_count B (length fs)])"
  using fileBatches_loop_eq [of B fs 0 "[]"] by (simp add: batch_def)

lemma batch_count_less_iff: "0 < B \<Longrightarrow> k < batch_count B n \<longleftrightarrow> k * B < n"
proof -
  assume B: "0 < B"
  have "k < batch_count B n \<longleftrightarrow> Suc k \<le> (n + B - 1) div B" by (simp add: batch_count_def Suc_le_eq)
  also have "\<dots> \<longleftrightarrow> Suc k * B \<le> n + B - 1" using B by (simp add: less_eq_div_iff_mult_less_eq)
  also have "\<dots> \<longleftrightarrow> k * B < n" using B by (cases n) auto
  finally show ?thesis .
qed

lemma length_batch:
  "0 < B \<Longrightarrow> k < batch_count B (length fs) \<Longrightarrow>
   length (batch B fs k) = (if Suc k < batch_count B (length fs) then B else length fs - k * B) \<and>
   0 < length (batch B fs k) \<and> length (batch B fs k) \<le> B"
proof -
  assume B: "0 < B" and k: "k < batch_count B (length fs)"
  have len: "length (batch B fs k) = min B (length fs - k * B)"
    by (simp add: batch_def slice_def min_def)
  have up: "k * B < length fs"
    using k B by (simp add: batch_count_less_iff)
  have full: "Suc k < batch_count B (length fs) \<longleftrightarrow> Suc k * B < length fs"
    using B by (simp add: batch_count_less_iff)
  show ?thesis using len up full B by (auto simp: min_def)
qed


lemma nth_batches:
  "k < m \<Longrightarrow> map (batch B fs) [0 ..< m] ! k = batch B fs k"
  by simp

lemma processFilesInBatches_ok:
  assumes B: "0 < B" and ok: "\<forall>k < batch_count B (length fs). \<not> fails k"
  shows "processFilesInBatches B fails s fs rid cp did =
     Some (Inr (),
       s\<lparr>files := files s @ map (file_create rid did) fs,
         txLog := txLog s @
           map (\<lambda>k. FileTx (map (file_create rid did) (batch B fs k)) True)
             [0 ..< batch_count B (length fs)],
         updates := updates s @ [(rid, PROCESSING, start_message (length fs) cp)] @
           map (\<lambda>k. (rid, PROCESSING,
                  saved_batch_message k (batch_count B (length fs)) (length (batch B fs k)) cp))
             [0 ..< batch_count B (length fs)] @
           [(rid, SUCCESS, finish_message (length fs) cp)]\<rparr>)"
proof -
  let ?m = "batch_count B (length fs)"
  let ?bs = "map (batch B fs) [0 ..< ?m]"
  have ok': "\<forall>k < length ?bs. \<not> fails (0 + k)" using ok by simp
  have c: "concat (map (map (file_create rid did)) ?bs) = map (file_create rid did) fs"
    by (subst map_concat [symmetric]) (simp only: concat_batches [OF B])
  have u: "map (\<lambda>k. (rid, PROCESSING, saved_batch_message (0 + k) ?m (length (?bs ! k)) cp)) [0 ..< length ?bs]
         = map (\<lambda>k. (rid, PROCESSING, saved_batch_message k ?m (length (batch B fs k)) cp)) [0 ..< ?m]"
    by (rule map_cong) simp_all
  show ?thesis
    unfolding processFilesInBatches_def Let_def fileBatches_eq [OF B] 
    apply (simp only: option.case save_batches_ok [OF ok'] c u)
    apply (simp add: sendProcessingUpdate_def comp_def)
    done
qed

lemma processFilesInBatches_fail:
  assumes B: "0 < B" and k: "k < batch_count B (length fs)" and bad: "fails k"
    and ok: "\<forall>i < k. \<not> fails i"
  shows "processFilesInBatches B fails s fs rid cp did =
     Some (Inl TransactionError,
       s\<lparr>files := files s @ concat (map (\<lambda>i. map (file_create rid did) (batch B fs i)) [0 ..< k]),
         txLog := txLog s @
           map (\<lambda>i. FileTx (map (file_create rid did) (batch B fs i)) True) [0 ..< k] @
           [FileTx (map (file_create rid did) (batch B fs k)) False],
         updates := updates s @ [(rid, PROCESSING, start_message (length fs) cp)] @
           map (\<lambda>i. (rid, PROCESSING,
                  saved_batch_message i (batch_count B (length fs)) (length (batch B fs i)) cp))
             [0 ..< k] @
           [(rid, FAILED, failure_message cp)]\<rparr>)"
proof -
  let ?m = "batch_count B (length fs)"
  let ?bs = "map (batch B fs) [0 ..< ?m]"
  have k': "k < length ?bs" using k by simp
  have bad': "fails (0 + k)" using bad by simp
  have ok': "\<forall>i < k. \<not> fails (0 + i)" using ok by simp
  have t: "take k ?bs = map (batch B fs) [0 ..< k]"
    using k by (simp add: take_map)
  have n: "?bs ! k = batch B fs k" using k by simp
  have u: "map (\<lambda>i. (rid, PROCESSING, saved_batch_message (0 + i) ?m (length (?bs ! i)) cp)) [0 ..< k]
         = map (\<lambda>i. (rid, PROCESSING, saved_batch_message i ?m (length (batch B fs i)) cp)) [0 ..< k]"
    using k by (intro map_cong) simp_all
  show ?thesis
    unfolding processFilesInBatches_def Let_def fileBatches_eq [OF B]
    apply (simp only: option.case save_batches_fail [OF k' bad' ok'] t n)
    using k apply (simp add: sendProcessingUpdate_def comp_def cong: map_cong)
    done
qed

section \<open>What each part of a job leaves untouched\<close>

lemma save_batches_frame:
  "save_batches fails rid cp did nb i bs s = (r, s') \<Longrightarrow>
   repositories s' = repositories s \<and> directories s' = directories s \<and>
   redis s' = redis s \<and> queue s' = queue s \<and>
   completedEvents s' = completedEvents s \<and> failedEvents s' = failedEvents s"
proof (induction bs arbitrary: i s)
  case Nil
  then show ?case by auto
next
  case (Cons b bs)
  show ?case
  proof (cases "fails i")
    case True
    then show ?thesis using Cons.prems by (auto simp: file_transaction_def)
  next
    case False
    let ?s1 = "sendProcessingUpdate
        (s\<lparr>files := files s @ map (file_create rid did) b,
           txLog := txLog s @ [FileTx (map (file_create rid did) b) True]\<rparr>)
        rid PROCESSING (saved_batch_message i nb (length b) cp)"
    have "save_batches fails rid cp did nb (Suc i) bs ?s1 = (r, s')"
      using Cons.prems False by (simp add: file_transaction_def)
    from Cons.IH [OF this] show ?thesis
      by (simp add: sendProcessingUpdate_def)
  qed
qed

lemma processFilesInBatches_frame:
  "processFilesInBatches B fails s fs rid cp did = Some (r, s') \<Longrightarrow>
   repositories s' = repositories s \<and> directories s' = directories s \<and>
   redis s' = redis s \<and> queue s' = queue s \<and>
   completedEvents s' = completedEvents s \<and> failedEvents s' = failedEvents s"
  unfolding processFilesInBatches_def Let_def
  by (auto split: option.splits prod.splits sum.splits dest!: save_batches_frame
      simp: sendProcessingUpdate_def)

lemma processFilesInBatches_Inr:
  "processFilesInBatches B fails s fs rid cp did = Some (Inr u, s') \<Longrightarrow>
   updates s' \<noteq> [] \<and> last (updates s') = (rid, SUCCESS, finish_message (length fs) cp)"
  unfolding processFilesInBatches_def Let_def
  by (auto split: option.splits prod.splits sum.splits simp: sendProcessingUpdate_def)

lemma processFilesInBatches_empty:
  "processFilesInBatches B fails s [] rid cp did =
     Some (Inr (), s\<lparr>updates := updates s @ [(rid, PROCESSING, start_message 0 cp),
                                              (rid, SUCCESS, finish_message 0 cp)]\<rparr>)"
  unfolding processFilesInBatches_def Let_def
  by (subst fileBatches_loop.simps) (simp add: sendProcessingUpdate_def)

lemma directory_transaction_frame:
  "directory_transaction e fails s ds = (r, s') \<Longrightarrow>
   repositories s' = repositories s \<and> files s' = files s \<and> updates s' = updates s \<and>
   redis s' = redis s \<and> queue s' = queue s \<and>
   completedEvents s' = completedEvents s \<and> failedEvents s' = failedEvents s"
  by (auto simp: directory_transaction_def Let_def split: if_splits)

lemma foldl_apply_event_frame:
  "repositories (foldl apply_event s evs) = repositories s \<and>
   directories (foldl apply_event s evs) = directories s \<and>
   files (foldl apply_event s evs) = files s \<and>
   txLog (foldl apply_event s evs) = txLog s \<and>
   updates (foldl apply_event s evs) = updates s \<and>
   completedEvents (foldl apply_event s evs) = completedEvents s \<and>
   failedEvents (foldl apply_event s evs) = failedEvents s"
  by (induction evs arbitrary: s) (auto simp: apply_event_def incr_def split: event.splits)

lemma enqueue_children_frame:
  "enqueue_children e s j dirs = (r, s') \<Longrightarrow>
   repositories s' = repositories s \<and> directories s' = directories s \<and>
   files s' = files s \<and> txLog s' = txLog s \<and> updates s' = updates s \<and>
   completedEvents s' = completedEvents s \<and> failedEvents s' = failedEvents s"
  by (auto simp: enqueue_children_def Let_def foldl_apply_event_frame)

lemma try_block_frame:
  "try_block e s j = Some (r, s') \<Longrightarrow>
   repositories s' = repositories s \<and>
   completedEvents s' = completedEvents s \<and> failedEvents s' = failedEvents s"
  unfolding try_block_def Let_def
  by (auto split: sum.splits prod.splits option.splits
      dest!: directory_transaction_frame processFilesInBatches_frame enqueue_children_frame
      simp: sendProcessingUpdate_def)


lemma try_block_Inr_updates:
  "try_block e s j = Some (Inr n, s') \<Longrightarrow>
   \<exists>items. fetchGithubContent e (job_owner j) (job_repo j) (job_path j) (job_repositoryId j) = Inr items \<and>
     n = length items \<and>
     (job_repositoryId j, SUCCESS,
      finish_message (length (files_of items)) (job_path j))
       \<in> set (updates s')"
  unfolding try_block_def Let_def
  apply (clarsimp split: sum.splits prod.splits option.splits)
  apply (drule processFilesInBatches_Inr)
  apply (drule enqueue_children_frame)
  apply (clarsimp simp: sendProcessingUpdate_def)
  apply (metis last_in_set)
  done

section \<open>The batch helper reports success before the run is complete\<close>

text \<open>
  C10. Whenever \<open>processFilesInBatches\<close> finishes without error, the last update it sent
  carries the status \<open>SUCCESS\<close> and the message "Finished processing N files in ...", and
  no repository status has changed. It does finish without error when no batch fails, also
  for a directory without files. So every job whose \<open>try\<close> block reaches its end has sent
  a \<open>SUCCESS\<close> update while the status of its run is what it was, \<open>PROCESSING\<close> included.
\<close>

theorem batch_helper_sends_success:
  "(\<forall>u s'. processFilesInBatches B fails s fs rid cp did = Some (Inr u, s') \<longrightarrow>
      updates s' \<noteq> [] \<and>
      last (updates s') =
        (rid, SUCCESS,
         ''Finished processing '' @ string_of_nat (length fs) @ '' files in '' @ or_root cp) \<and>
      repositories s' = repositories s) \<and>
   ((0 < B \<or> fs = []) \<and> (\<forall>k < batch_count B (length fs). \<not> fails k) \<longrightarrow>
      (\<exists>s'. processFilesInBatches B fails s fs rid cp did = Some (Inr (), s'))) \<and>
   (\<forall>n s'. try_block e s j = Some (Inr n, s') \<longrightarrow>
      repositories s' = repositories s \<and>
      (\<exists>m. (job_repositoryId j, SUCCESS,
            ''Finished processing '' @ string_of_nat m @ '' files in '' @ or_root (job_path j))
           \<in> set (updates s')))"
proof (intro conjI allI impI)
  fix u s'
  assume h: "processFilesInBatches B fails s fs rid cp did = Some (Inr u, s')"
  show "updates s' \<noteq> []" using processFilesInBatches_Inr [OF h] by simp
  show "last (updates s') =
        (rid, SUCCESS,
         ''Finished processing '' @ string_of_nat (length fs) @ '' files in '' @ or_root cp)"
    using processFilesInBatches_Inr [OF h] by (simp add: finish_message_def)
  show "repositories s' = repositories s" using processFilesInBatches_frame [OF h] by simp
next
  assume h: "(0 < B \<or> fs = []) \<and> (\<forall>k < batch_count B (length fs). \<not> fails k)"
  show "\<exists>s'. processFilesInBatches B fails s fs rid cp did = Some (Inr (), s')"
  proof (cases "fs = []")
    case True
    then show ?thesis by (simp add: processFilesInBatches_empty)
  next
    case False
    then have B: "0 < B" using h by simp
    have ok: "\<forall>k < batch_count B (length fs). \<not> fails k" using h by simp
    show ?thesis by (simp add: processFilesInBatches_ok [OF B ok])
  qed
next
  fix n s'
  assume h: "try_block e s j = Some (Inr n, s')"
  show "repositories s' = repositories s" using try_block_frame [OF h] by simp
  show "\<exists>m. (job_repositoryId j, SUCCESS,
            ''Finished processing '' @ string_of_nat m @ '' files in '' @ or_root (job_path j))
           \<in> set (updates s')"
    using try_block_Inr_updates [OF h] by (auto simp: finish_message_def)
qed

theorem batch_helper_sends_success_witness:
  "\<exists>s'. processFilesInBatches 0 (\<lambda>k. True) demo_init [] ''R1'' [] None = Some (Inr (), s') \<and>
        last (updates s') = (''R1'', SUCCESS, ''Finished processing 0 files in root'') \<and>
        repositories s' ''R1'' = Some PROCESSING"
proof -
  let ?r = "processFilesInBatches 0 (\<lambda>k. True) demo_init [] ''R1'' [] None"
  note t = batch_helper_sends_success [where B = 0 and fails = "\<lambda>k. True" and s = demo_init
      and fs = "[]" and rid = "''R1''" and cp = "[]" and did = None and e = demo_env
      and j = "demo_job []"]
  have "\<exists>s'. ?r = Some (Inr (), s')"
    using t [THEN conjunct2, THEN conjunct1] by (simp add: batch_count_def)
  then obtain s' where s': "?r = Some (Inr (), s')" ..
  from t [THEN conjunct1] s' have "last (updates s') =
        (''R1'', SUCCESS, ''Finished processing '' @ string_of_nat (length ([] :: GitHubContent list)) @ '' files in '' @ or_root [])
      \<and> repositories s' = repositories demo_init"
    by blast
  then show ?thesis using s'
    by (simp add: or_root_def string_of_nat.simps digit_def demo_init_def)
qed

section \<open>Batch persistence\<close>

lemma batch_count_ceiling:
  "0 < B \<Longrightarrow> n \<le> batch_count B n * B \<and> batch_count B n * B < n + B"
proof -
  assume B: "0 < B"
  have a: "\<not> batch_count B n < batch_count B n" by simp
  then have "\<not> batch_count B n * B < n" using batch_count_less_iff [OF B] by blast
  then have 1: "n \<le> batch_count B n * B" by simp
  show ?thesis
  proof (cases "batch_count B n")
    case 0
    then show ?thesis using 1 B by simp
  next
    case (Suc m)
    then have "m < batch_count B n" by simp
    then have "m * B < n" using batch_count_less_iff [OF B] by blast
    then show ?thesis using 1 Suc by simp
  qed
qed

lemma catch_block_marks_failed:
  "repositories s (job_repositoryId j) = Some st \<Longrightarrow>
   catch_block s j =
     (Inr Undefined,
      s\<lparr>repositories := (repositories s)(job_repositoryId j \<mapsto> FAILED),
        updates := updates s @
          [(job_repositoryId j, FAILED, failed_message (job_path j))]\<rparr>)"
  by (simp add: catch_block_def repository_update_def sendProcessingUpdate_def)

lemma catch_block_raises:
  "repositories s (job_repositoryId j) = None \<Longrightarrow> catch_block s j = (Inl RecordNotFound, s)"
  by (simp add: catch_block_def repository_update_def)

lemma try_block_file_failure:
  assumes fetch: "fetchGithubContent e (job_owner j) (job_repo j) (job_path j) (job_repositoryId j) = Inr items"
    and dir_ok: "\<not> directory_tx_fails e j"
    and B: "0 < FILE_BATCH_SIZE e"
    and k: "k < batch_count (FILE_BATCH_SIZE e) (length (files_of items))"
    and bad: "file_tx_fails e j k"
  shows "\<exists>s'. try_block e s j = Some (Inl TransactionError, s') \<and> queue s' = queue s \<and>
           redis s' = redis s"
proof -
  let ?fs = "files_of items"
  let ?P = "\<lambda>k. k < batch_count (FILE_BATCH_SIZE e) (length ?fs) \<and> file_tx_fails e j k"
  define k0 where "k0 = (LEAST k. ?P k)"
  have P: "?P k0" unfolding k0_def using k bad by (intro LeastI [of ?P k]) simp
  have least: "\<forall>i < k0. \<not> file_tx_fails e j i"
  proof (intro allI impI)
    fix i assume i: "i < k0"
    then have "\<not> ?P i" unfolding k0_def using not_less_Least by blast
    moreover have "i < batch_count (FILE_BATCH_SIZE e) (length ?fs)" using i P by simp
    ultimately show "\<not> file_tx_fails e j i" by simp
  qed
  note f = processFilesInBatches_fail [OF B conjunct1 [OF P] conjunct2 [OF P] least]
  show ?thesis
    unfolding try_block_def Let_def
    by (simp add: fetch dir_ok directory_transaction_def f sendProcessingUpdate_def Let_def)
qed


text \<open>
  C6. With a batch size \<open>B > 0\<close> and \<open>n\<close> files there are \<open>\<lceil>n / B\<rceil>\<close> batches: every batch
  but the last holds \<open>B\<close> files, the last holds the rest (at least one, at most \<open>B\<close>),
  and together they are the files in order. When no transaction fails, the helper commits
  one transaction per batch, adds exactly the files, and sends one "Saved batch i/total"
  update per batch. When batch \<open>k\<close> is the first to fail, the batches before it are
  committed, batch \<open>k\<close> is refused as a whole, no later batch is attempted, and the
  helper raises. A job whose helper raises ends with the run marked \<open>FAILED\<close> and with no
  child job enqueued.
\<close>

theorem batch_persistence:
  assumes B: "0 < B"
  shows
  "(length fs \<le> batch_count B (length fs) * B \<and> batch_count B (length fs) * B < length fs + B) \<and>
   (\<forall>k < batch_count B (length fs).
      length (batch B fs k) = (if Suc k < batch_count B (length fs) then B else length fs - k * B) \<and>
      0 < length (batch B fs k) \<and> length (batch B fs k) \<le> B) \<and>
   concat (map (batch B fs) [0 ..< batch_count B (length fs)]) = fs \<and>
   ((\<forall>k < batch_count B (length fs). \<not> fails k) \<longrightarrow>
      processFilesInBatches B fails s fs rid cp did =
        Some (Inr (),
          s\<lparr>files := files s @ map (file_create rid did) fs,
            txLog := txLog s @
              map (\<lambda>k. FileTx (map (file_create rid did) (batch B fs k)) True)
                [0 ..< batch_count B (length fs)],
            updates := updates s @
              [(rid, PROCESSING,
                ''Processing '' @ string_of_nat (length fs) @ '' files in batches for '' @
                  or_root cp)] @
              map (\<lambda>k. (rid, PROCESSING,
                     ''Saved batch '' @ string_of_nat (k + 1) @ ''/'' @
                       string_of_nat (batch_count B (length fs)) @ '' ('' @
                       string_of_nat (length (batch B fs k)) @ '' files) for '' @ or_root cp))
                [0 ..< batch_count B (length fs)] @
              [(rid, SUCCESS,
                ''Finished processing '' @ string_of_nat (length fs) @ '' files in '' @
                  or_root cp)]\<rparr>)) \<and>
   (\<forall>k < batch_count B (length fs). fails k \<and> (\<forall>i < k. \<not> fails i) \<longrightarrow>
      processFilesInBatches B fails s fs rid cp did =
        Some (Inl TransactionError,
          s\<lparr>files := files s @
              concat (map (\<lambda>i. map (file_create rid did) (batch B fs i)) [0 ..< k]),
            txLog := txLog s @
              map (\<lambda>i. FileTx (map (file_create rid did) (batch B fs i)) True) [0 ..< k] @
              [FileTx (map (file_create rid did) (batch B fs k)) False],
            updates := updates s @
              [(rid, PROCESSING,
                ''Processing '' @ string_of_nat (length fs) @ '' files in batches for '' @
                  or_root cp)] @
              map (\<lambda>i. (rid, PROCESSING,
                     ''Saved batch '' @ string_of_nat (i + 1) @ ''/'' @
                       string_of_nat (batch_count B (length fs)) @ '' ('' @
                       string_of_nat (length (batch B fs i)) @ '' files) for '' @ or_root cp))
                [0 ..< k] @
              [(rid, FAILED,
                ''Failed to save files in '' @ or_root cp @ '' --handleLargeFileSet'')]\<rparr>)) \<and>
   (\<forall>e j s0 items st.
      fetchGithubContent e (job_owner j) (job_repo j) (job_path j) (job_repositoryId j) = Inr items \<and>
      \<not> directory_tx_fails e j \<and> FILE_BATCH_SIZE e = B \<and>
      (\<exists>k < batch_count B (length (files_of items)).
          file_tx_fails e j k) \<and>
      repositories s0 (job_repositoryId j) = Some st \<longrightarrow>
      (\<exists>s'. directoryWorker e s0 j = Some (Inr Undefined, s') \<and>
            repositories s' (job_repositoryId j) = Some FAILED \<and>
            last (updates s') =
              (job_repositoryId j, FAILED,
               ''Failed to process directory: '' @ or_root (job_path j)) \<and>
            queue s' = queue s0))"
proof -
  have folded:
      "(length fs \<le> batch_count B (length fs) * B \<and> batch_count B (length fs) * B < length fs + B) \<and>
       (\<forall>k < batch_count B (length fs).
          length (batch B fs k) = (if Suc k < batch_count B (length fs) then B else length fs - k * B) \<and>
          0 < length (batch B fs k) \<and> length (batch B fs k) \<le> B) \<and>
       concat (map (batch B fs) [0 ..< batch_count B (length fs)]) = fs \<and>
       ((\<forall>k < batch_count B (length fs). \<not> fails k) \<longrightarrow>
          processFilesInBatches B fails s fs rid cp did =
            Some (Inr (),
              s\<lparr>files := files s @ map (file_create rid did) fs,
                txLog := txLog s @
                  map (\<lambda>k. FileTx (map (file_create rid did) (batch B fs k)) True)
                    [0 ..< batch_count B (length fs)],
                updates := updates s @ [(rid, PROCESSING, start_message (length fs) cp)] @
                  map (\<lambda>k. (rid, PROCESSING,
                         saved_batch_message k (batch_count B (length fs)) (length (batch B fs k)) cp))
                    [0 ..< batch_count B (length fs)] @
                  [(rid, SUCCESS, finish_message (length fs) cp)]\<rparr>)) \<and>
       (\<forall>k < batch_count B (length fs). fails k \<and> (\<forall>i < k. \<not> fails i) \<longrightarrow>
          processFilesInBatches B fails s fs rid cp did =
            Some (Inl TransactionError,
              s\<lparr>files := files s @
                  concat (map (\<lambda>i. map (file_create rid did) (batch B fs i)) [0 ..< k]),
                txLog := txLog s @
                  map (\<lambda>i. FileTx (map (file_create rid did) (batch B fs i)) True) [0 ..< k] @
                  [FileTx (map (file_create rid did) (batch B fs k)) False],
                updates := updates s @ [(rid, PROCESSING, start_message (length fs) cp)] @
                  map (\<lambda>i. (rid, PROCESSING,
                         saved_batch_message i (batch_count B (length fs)) (length (batch B fs i)) cp))
                    [0 ..< k] @
                  [(rid, FAILED, failure_message cp)]\<rparr>)) \<and>
       (\<forall>e j s0 items st.
          fetchGithubContent e (job_owner j) (job_repo j) (job_path j) (job_repositoryId j) = Inr items \<and>
          \<not> directory_tx_fails e j \<and> FILE_BATCH_SIZE e = B \<and>
          (\<exists>k < batch_count B (length (files_of items)).
              file_tx_fails e j k) \<and>
          repositories s0 (job_repositoryId j) = Some st \<longrightarrow>
          (\<exists>s'. directoryWorker e s0 j = Some (Inr Undefined, s') \<and>
                repositories s' (job_repositoryId j) = Some FAILED \<and>
                last (updates s') = (job_repositoryId j, FAILED, failed_message (job_path j)) \<and>
                queue s' = queue s0))"
  proof (intro conjI allI impI)
    show "length fs \<le> batch_count B (length fs) * B"
      and "batch_count B (length fs) * B < length fs + B"
      using batch_count_ceiling [OF B, of "length fs"] by simp_all
  next
    fix k assume "k < batch_count B (length fs)"
    note l = length_batch [OF B this]
    show "length (batch B fs k) = (if Suc k < batch_count B (length fs) then B else length fs - k * B)"
      using l by (rule conjunct1)
    show "0 < length (batch B fs k)" using l by blast
    show "length (batch B fs k) \<le> B" using l by blast
  next
    show "concat (map (batch B fs) [0 ..< batch_count B (length fs)]) = fs"
      by (rule concat_batches [OF B])
  next
    assume "\<forall>k < batch_count B (length fs). \<not> fails k"
    then show "processFilesInBatches B fails s fs rid cp did =
          Some (Inr (),
            s\<lparr>files := files s @ map (file_create rid did) fs,
              txLog := txLog s @
                map (\<lambda>k. FileTx (map (file_create rid did) (batch B fs k)) True)
                  [0 ..< batch_count B (length fs)],
              updates := updates s @ [(rid, PROCESSING, start_message (length fs) cp)] @
                map (\<lambda>k. (rid, PROCESSING,
                       saved_batch_message k (batch_count B (length fs)) (length (batch B fs k)) cp))
                  [0 ..< batch_count B (length fs)] @
                [(rid, SUCCESS, finish_message (length fs) cp)]\<rparr>)"
      by (rule processFilesInBatches_ok [OF B])
  next
    fix k
    assume k: "k < batch_count B (length fs)" and f: "fails k \<and> (\<forall>i < k. \<not> fails i)"
    show "processFilesInBatches B fails s fs rid cp did =
          Some (Inl TransactionError,
            s\<lparr>files := files s @
                concat (map (\<lambda>i. map (file_create rid did) (batch B fs i)) [0 ..< k]),
              txLog := txLog s @
                map (\<lambda>i. FileTx (map (file_create rid did) (batch B fs i)) True) [0 ..< k] @
                [FileTx (map (file_create rid did) (batch B fs k)) False],
              updates := updates s @ [(rid, PROCESSING, start_message (length fs) cp)] @
                map (\<lambda>i. (rid, PROCESSING,
                       saved_batch_message i (batch_count B (length fs)) (length (batch B fs i)) cp))
                  [0 ..< k] @
                [(rid, FAILED, failure_message cp)]\<rparr>)"
      using processFilesInBatches_fail [OF B k] f by blast
  next
    fix e :: env and j :: job and s0 :: state and items st
    assume h: "fetchGithubContent e (job_owner j) (job_repo j) (job_path j) (job_repositoryId j) = Inr items \<and>
        \<not> directory_tx_fails e j \<and> FILE_BATCH_SIZE e = B \<and>
        (\<exists>k < batch_count B (length (files_of items)).
            file_tx_fails e j k) \<and>
        repositories s0 (job_repositoryId j) = Some st"
    then obtain k where k: "k < batch_count (FILE_BATCH_SIZE e) (length (files_of items))"
      and bad: "file_tx_fails e j k" by auto
    have B': "0 < FILE_BATCH_SIZE e" using h B by simp
    have fetch: "fetchGithubContent e (job_owner j) (job_repo j) (job_path j) (job_repositoryId j) = Inr items"
      and dok: "\<not> directory_tx_fails e j" using h by simp_all
    from try_block_file_failure [OF fetch dok B' k bad, of s0]
    obtain s1 where t: "try_block e s0 j = Some (Inl TransactionError, s1)"
      and q: "queue s1 = queue s0" by blast
    have r: "repositories s1 (job_repositoryId j) = Some st"
      using try_block_frame [OF t] h by simp
    show "\<exists>s'. directoryWorker e s0 j = Some (Inr Undefined, s') \<and>
              repositories s' (job_repositoryId j) = Some FAILED \<and>
              last (updates s') = (job_repositoryId j, FAILED, failed_message (job_path j)) \<and>
              queue s' = queue s0"
      by (simp add: directoryWorker_def t catch_block_marks_failed [OF r] q)
  qed
  then show ?thesis
    unfolding saved_batch_message_def start_message_def finish_message_def
      failure_message_def failed_message_def .
qed


theorem batch_persistence_witness:
  "batch_count 2 (length demo_files) = 2 \<and>
   map_option (\<lambda>(r, s'). (r, txLog s', length (files s'), updates s'))
     (processFilesInBatches 2 (\<lambda>k. False) demo_init demo_files ''R1'' [] None) =
     Some (Inr (),
           [FileTx (map (file_create ''R1'' None) (take 2 demo_files)) True,
            FileTx (map (file_create ''R1'' None) (drop 2 demo_files)) True], 3,
           [(''R1'', PROCESSING, ''Processing 3 files in batches for root''),
            (''R1'', PROCESSING, ''Saved batch 1/2 (2 files) for root''),
            (''R1'', PROCESSING, ''Saved batch 2/2 (1 files) for root''),
            (''R1'', SUCCESS, ''Finished processing 3 files in root'')]) \<and>
   map_option (\<lambda>(r, s'). (r, txLog s', length (files s'), updates s'))
     (processFilesInBatches 2 (\<lambda>k. k = 0) demo_init demo_files ''R1'' [] None) =
     Some (Inl TransactionError,
           [FileTx (map (file_create ''R1'' None) (take 2 demo_files)) False], 0,
           [(''R1'', PROCESSING, ''Processing 3 files in batches for root''),
            (''R1'', FAILED, ''Failed to save files in root --handleLargeFileSet'')])"
proof -
  have B: "(0::nat) < 2" by simp
  have n: "batch_count 2 (length demo_files) = 2"
    by (simp add: batch_count_def demo_files_def)
  have u: "[0 ..< 2] = [0, Suc 0]" by (simp add: upt_rec)
  note t = batch_persistence [OF B, where fs = demo_files and s = demo_init and rid = "''R1''"
      and cp = "[]" and did = None]
  have ok: "processFilesInBatches 2 (\<lambda>k. False) demo_init demo_files ''R1'' [] None =
      Some (Inr (),
        demo_init\<lparr>files := files demo_init @ map (file_create ''R1'' None) demo_files,
          txLog := txLog demo_init @
            map (\<lambda>k. FileTx (map (file_create ''R1'' None) (batch 2 demo_files k)) True)
              [0 ..< batch_count 2 (length demo_files)],
          updates := updates demo_init @ [(''R1'', PROCESSING, start_message (length demo_files) [])] @
            map (\<lambda>k. (''R1'', PROCESSING,
                   saved_batch_message k (batch_count 2 (length demo_files))
                     (length (batch 2 demo_files k)) []))
              [0 ..< batch_count 2 (length demo_files)] @
            [(''R1'', SUCCESS, finish_message (length demo_files) [])]\<rparr>)"
    using t [where fails = "\<lambda>k. False"]
    by (simp add: saved_batch_message_def start_message_def finish_message_def)
  have bad: "processFilesInBatches 2 (\<lambda>k. k = 0) demo_init demo_files ''R1'' [] None =
      Some (Inl TransactionError,
        demo_init\<lparr>files := files demo_init @
            concat (map (\<lambda>i. map (file_create ''R1'' None) (batch 2 demo_files i)) [0 ..< 0]),
          txLog := txLog demo_init @
            map (\<lambda>i. FileTx (map (file_create ''R1'' None) (batch 2 demo_files i)) True) [0 ..< 0] @
            [FileTx (map (file_create ''R1'' None) (batch 2 demo_files 0)) False],
          updates := updates demo_init @ [(''R1'', PROCESSING, start_message (length demo_files) [])] @
            map (\<lambda>i. (''R1'', PROCESSING,
                   saved_batch_message i (batch_count 2 (length demo_files))
                     (length (batch 2 demo_files i)) []))
              [0 ..< 0] @
            [(''R1'', FAILED, failure_message [])]\<rparr>)"
    using t [where fails = "\<lambda>k. k = 0"] n
    by (simp add: saved_batch_message_def start_message_def failure_message_def)
  show ?thesis
    unfolding ok bad n
    by (simp add: n u batch_def slice_def demo_init_def demo_files_def
        saved_batch_message_def start_message_def finish_message_def failure_message_def
        or_root_def string_of_nat.simps digit_def)
qed

section \<open>Evaluating the model on the small repository\<close>

lemma upt_2: "[0 ..< 2] = [0, Suc 0]"
  by (simp add: upt_rec)

lemmas demo_simps = demo_env_def demo_fetch_def demo_init_def demo_job_def item_def

lemmas model_simps = step_def directoryWorker_def try_block_def catch_block_def
  repository_update_def sendProcessingUpdate_def directory_transaction_def created_rows_def
  directoryData_def set_all_def id_or_null_def parent_path_def enqueue_children_def
  dirs_of_def files_of_def lookup_directoryId_def current_dir_path_def
  child_task_def child_job_def apply_event_def incr_def counter_def remove_nth_def
  processFilesInBatches_def fileBatches_eq batch_count_def batch_def slice_def
  file_transaction_def file_create_def on_completed_def on_failed_def decr_def findUnique_def
  Let_def upt_2

section \<open>A job whose error is caught completes\<close>

lemma directoryWorker_caught:
  "try_block e s j = Some (Inl err, s1) \<Longrightarrow> repositories s (job_repositoryId j) = Some st \<Longrightarrow>
   directoryWorker e s j =
     Some (Inr Undefined,
       s1\<lparr>repositories := (repositories s)(job_repositoryId j \<mapsto> FAILED),
          updates := updates s1 @ [(job_repositoryId j, FAILED, failed_message (job_path j))]\<rparr>)"
proof -
  assume t: "try_block e s j = Some (Inl err, s1)"
    and r: "repositories s (job_repositoryId j) = Some st"
  have f: "repositories s1 = repositories s" using try_block_frame [OF t] by simp
  then have r1: "repositories s1 (job_repositoryId j) = Some st" using r by simp
  show ?thesis by (simp add: directoryWorker_def t catch_block_marks_failed [OF r1] f)
qed

lemma directoryWorker_uncaught:
  "try_block e s j = Some (Inl err, s1) \<Longrightarrow> repositories s (job_repositoryId j) = None \<Longrightarrow>
   directoryWorker e s j = Some (Inl RecordNotFound, s1)"
proof -
  assume t: "try_block e s j = Some (Inl err, s1)"
    and r: "repositories s (job_repositoryId j) = None"
  have "repositories s1 = repositories s" using try_block_frame [OF t] by simp
  then have r1: "repositories s1 (job_repositoryId j) = None" using r by simp
  show ?thesis by (simp add: directoryWorker_def t catch_block_raises [OF r1])
qed

text \<open>
  C2, as amended. When a call of steps 1 to 6 raises and the run has a row, the processor
  sets the status to \<open>FAILED\<close>, sends the \<open>FAILED\<close> update and resolves to \<open>undefined\<close>: the
  error is not thrown again. The queue therefore emits \<open>completed\<close> for the job, not
  \<open>failed\<close>, and the handler of \<open>completed\<close> decrements the counter by one while the status
  stays \<open>FAILED\<close>. A fetch that raises is one such error. The processor itself raises only
  when the run has no row, and the handler of \<open>failed\<close> changes nothing.
\<close>

theorem caught_error_completes_job:
  "(try_block e s j = Some (Inl err, s1) \<and> repositories s (job_repositoryId j) = Some st \<longrightarrow>
      directoryWorker e s j =
        Some (Inr Undefined,
          s1\<lparr>repositories := (repositories s)(job_repositoryId j \<mapsto> FAILED),
             updates := updates s1 @
               [(job_repositoryId j, FAILED, failed_message (job_path j))]\<rparr>)) \<and>
   (i < length (queue s) \<and>
    try_block e (s\<lparr>queue := remove_nth i (queue s)\<rparr>) (queue s ! i) = Some (Inl err, s1) \<and>
    repositories s (job_repositoryId (queue s ! i)) = Some st \<longrightarrow>
      (\<exists>s2 s3.
         step e s (Process i) = Some s2 \<and>
         completedEvents s2 = completedEvents s @ [queue s ! i] \<and>
         failedEvents s2 = failedEvents s \<and>
         repositories s2 (job_repositoryId (queue s ! i)) = Some FAILED \<and>
         step e s2 (Complete (length (completedEvents s))) = Some s3 \<and>
         counter s3 (pending_jobs_key (job_repositoryId (queue s ! i))) =
           counter s2 (pending_jobs_key (job_repositoryId (queue s ! i))) - 1 \<and>
         repositories s3 = repositories s2)) \<and>
   (fetchGithubContent e (job_owner j) (job_repo j) (job_path j) (job_repositoryId j) = Inl err \<longrightarrow>
      try_block e s j = Some (Inl err, s)) \<and>
   (try_block e s j = Some (Inl err, s1) \<and> repositories s (job_repositoryId j) = None \<longrightarrow>
      directoryWorker e s j = Some (Inl RecordNotFound, s1)) \<and>
   on_failed s j = s"
proof (intro conjI impI)
  assume "try_block e s j = Some (Inl err, s1) \<and> repositories s (job_repositoryId j) = Some st"
  then show "directoryWorker e s j =
        Some (Inr Undefined,
          s1\<lparr>repositories := (repositories s)(job_repositoryId j \<mapsto> FAILED),
             updates := updates s1 @
               [(job_repositoryId j, FAILED, failed_message (job_path j))]\<rparr>)"
    using directoryWorker_caught by blast
next
  let ?j = "queue s ! i"
  let ?k = "pending_jobs_key (job_repositoryId ?j)"
  assume h: "i < length (queue s) \<and>
    try_block e (s\<lparr>queue := remove_nth i (queue s)\<rparr>) ?j = Some (Inl err, s1) \<and>
    repositories s (job_repositoryId ?j) = Some st"
  then have t: "try_block e (s\<lparr>queue := remove_nth i (queue s)\<rparr>) ?j = Some (Inl err, s1)"
    and i: "i < length (queue s)" by simp_all
  have r: "repositories (s\<lparr>queue := remove_nth i (queue s)\<rparr>) (job_repositoryId ?j) = Some st"
    using h by simp
  note w = directoryWorker_caught [OF t r]
  note f = try_block_frame [OF t]
  let ?s2 = "s1\<lparr>repositories := (repositories s)(job_repositoryId ?j \<mapsto> FAILED),
      updates := updates s1 @ [(job_repositoryId ?j, FAILED, failed_message (job_path ?j))],
      completedEvents := completedEvents s @ [?j]\<rparr>"
  have s2: "step e s (Process i) = Some ?s2"
    using i w f by (simp add: step_def)
  let ?s3 = "on_completed (?s2\<lparr>completedEvents := remove_nth (length (completedEvents s))
      (completedEvents ?s2)\<rparr>) ?j"
  have s3: "step e ?s2 (Complete (length (completedEvents s))) = Some ?s3"
    by (simp add: step_def)
  have c: "counter ?s3 ?k = counter ?s2 ?k - 1"
    by (simp add: on_completed_def Let_def decr_def counter_def findUnique_def)
  have p: "repositories ?s3 = repositories ?s2"
    by (simp add: on_completed_def Let_def decr_def counter_def findUnique_def)
  show "\<exists>s2 s3.
         step e s (Process i) = Some s2 \<and>
         completedEvents s2 = completedEvents s @ [?j] \<and>
         failedEvents s2 = failedEvents s \<and>
         repositories s2 (job_repositoryId ?j) = Some FAILED \<and>
         step e s2 (Complete (length (completedEvents s))) = Some s3 \<and>
         counter s3 ?k = counter s2 ?k - 1 \<and>
         repositories s3 = repositories s2"
    apply (rule exI [of _ ?s2])
    apply (rule exI [of _ ?s3])
    using s2 s3 c p f by simp
next
  assume "fetchGithubContent e (job_owner j) (job_repo j) (job_path j) (job_repositoryId j) = Inl err"
  then show "try_block e s j = Some (Inl err, s)" by (simp add: try_block_def)
next
  assume "try_block e s j = Some (Inl err, s1) \<and> repositories s (job_repositoryId j) = None"
  then show "directoryWorker e s j = Some (Inl RecordNotFound, s1)"
    using directoryWorker_uncaught by blast
next
  show "on_failed s j = s" by (simp add: on_failed_def)
qed

theorem caught_error_completes_job_witness:
  "directoryWorker demo_env demo_init (demo_job ''missing'') =
     Some (Inr Undefined,
       demo_init\<lparr>repositories := [''R1'' \<mapsto> FAILED],
         updates := [(''R1'', FAILED, failed_message ''missing'')]\<rparr>)"
proof -
  have f: "fetchGithubContent demo_env (job_owner (demo_job ''missing''))
      (job_repo (demo_job ''missing'')) (job_path (demo_job ''missing''))
      (job_repositoryId (demo_job ''missing'')) = Inl FetchError"
    by (simp add: demo_simps)
  note t = caught_error_completes_job [where e = demo_env and s = demo_init
      and j = "demo_job ''missing''" and err = FetchError and ?s1.0 = demo_init
      and st = PROCESSING and i = 0]
  have "try_block demo_env demo_init (demo_job ''missing'') = Some (Inl FetchError, demo_init)"
    using t f by blast
  moreover have "repositories demo_init (job_repositoryId (demo_job ''missing'')) = Some PROCESSING"
    by (simp add: demo_simps)
  ultimately have "directoryWorker demo_env demo_init (demo_job ''missing'') =
     Some (Inr Undefined,
       demo_init\<lparr>repositories := (repositories demo_init)(job_repositoryId (demo_job ''missing'') \<mapsto> FAILED),
         updates := updates demo_init @
           [(job_repositoryId (demo_job ''missing''), FAILED,
             failed_message (job_path (demo_job ''missing'')))]\<rparr>)"
    using t by blast
  then show ?thesis by (simp add: demo_simps)
qed

text \<open>
  The claim as stated fails: the job for the path \<open>missing\<close>, whose fetch raises, leaves the
  queue with a pending \<open>completed\<close> event and no \<open>failed\<close> event, and the handler of that
  event decrements the counter of the run from 1 to 0.
\<close>

theorem failed_job_counterexample:
  "fetchGithubContent demo_env ''o'' ''r'' ''missing'' ''R1'' = Inl FetchError \<and>
   exec demo_env (demo_init\<lparr>queue := [demo_job ''missing'']\<rparr>) [Process 0] =
     Some (demo_init\<lparr>repositories := [''R1'' \<mapsto> FAILED], queue := [],
       completedEvents := [demo_job ''missing''], failedEvents := [],
       updates := [(''R1'', FAILED, failed_message ''missing'')]\<rparr>) \<and>
   exec demo_env (demo_init\<lparr>queue := [demo_job ''missing'']\<rparr>) [Process 0, Complete 0] =
     Some (demo_init\<lparr>repositories := [''R1'' \<mapsto> FAILED], queue := [],
       completedEvents := [], failedEvents := [],
       redis := [pending_jobs_key ''R1'' \<mapsto> 0],
       updates := [(''R1'', FAILED, failed_message ''missing'')]\<rparr>)"
  by (simp add: model_simps demo_simps)

section \<open>How the status of a run changes\<close>

lemma directoryWorker_status:
  "directoryWorker e s j = Some (r, s') \<Longrightarrow>
   repositories s' = repositories s \<or>
   (repositories s (job_repositoryId j) \<noteq> None \<and>
    repositories s' = (repositories s)(job_repositoryId j \<mapsto> FAILED))"
  unfolding directoryWorker_def catch_block_def repository_update_def
  by (auto split: option.splits sum.splits prod.splits dest!: try_block_frame
      simp: sendProcessingUpdate_def)

lemma on_completed_status:
  "repositories (on_completed s j) = repositories s \<or>
   (repositories s (job_repositoryId j) = Some PROCESSING \<and>
    repositories (on_completed s j) = (repositories s)(job_repositoryId j \<mapsto> SUCCESS))"
  by (simp add: on_completed_def Let_def decr_def findUnique_def repository_update_def
      sendProcessingUpdate_def)

lemma step_status:
  assumes "step e s a = Some s'"
  shows "repositories s' r = repositories s r \<or>
     ((\<exists>i. a = Complete i) \<and> repositories s r = Some PROCESSING \<and>
        repositories s' r = Some SUCCESS) \<or>
     ((\<exists>i. a = Process i) \<and> repositories s r \<noteq> None \<and> repositories s' r = Some FAILED)"
proof (cases a)
  case (Process i)
  with assms obtain res s1 where
    w: "directoryWorker e (s\<lparr>queue := remove_nth i (queue s)\<rparr>) (queue s ! i) = Some (res, s1)"
    and s': "repositories s' = repositories s1"
    by (auto simp: step_def split: if_splits option.splits sum.splits prod.splits)
  from directoryWorker_status [OF w] s' Process show ?thesis
    by (auto simp: fun_upd_def split: if_splits)
next
  case (Complete i)
  with assms have s': "s' = on_completed (s\<lparr>completedEvents := remove_nth i (completedEvents s)\<rparr>)
      (completedEvents s ! i)"
    by (auto simp: step_def split: if_splits)
  from on_completed_status [of "s\<lparr>completedEvents := remove_nth i (completedEvents s)\<rparr>"
      "completedEvents s ! i"] s' Complete
  show ?thesis by (auto simp: fun_upd_def split: if_splits)
next
  case (Fail i)
  with assms show ?thesis by (auto simp: step_def on_failed_def split: if_splits)
qed

lemma exec_failed_absorbing:
  "exec e s acts = Some s' \<Longrightarrow> repositories s r = Some FAILED \<Longrightarrow>
   repositories s' r = Some FAILED"
proof (induction acts arbitrary: s)
  case Nil
  then show ?case by simp
next
  case (Cons a acts)
  from Cons.prems obtain s1 where a: "step e s a = Some s1" and rest: "exec e s1 acts = Some s'"
    by (auto split: option.splits)
  from step_status [OF a, of r] Cons.prems(2) have "repositories s1 r = Some FAILED" by auto
  with Cons.IH [OF rest] show ?case .
qed

lemma exec_never_processing:
  "exec e s acts = Some s' \<Longrightarrow> repositories s r \<noteq> Some PROCESSING \<Longrightarrow>
   repositories s' r \<noteq> Some PROCESSING"
proof (induction acts arbitrary: s)
  case Nil
  then show ?case by simp
next
  case (Cons a acts)
  from Cons.prems obtain s1 where a: "step e s a = Some s1" and rest: "exec e s1 acts = Some s'"
    by (auto split: option.splits)
  from step_status [OF a, of r] Cons.prems(2) have "repositories s1 r \<noteq> Some PROCESSING" by auto
  with Cons.IH [OF rest] show ?case .
qed

section \<open>Parent and directory references\<close>

text \<open>
  The map the parent is looked up in is still empty when the creations are built, so every
  directory row a job creates has no parent, whatever the listing and the job.
\<close>

lemma directoryData_parent:
  "d \<in> set (directoryData Map.empty repositoryId dirs) \<Longrightarrow> dir_parentId d = None"
  by (auto simp: directoryData_def id_or_null_def)

lemma created_rows_parent:
  "d \<in> set (created_rows e n ds) \<Longrightarrow> \<exists>d' \<in> set ds. dir_parentId d = dir_parentId d'"
  by (auto simp: created_rows_def dest!: set_zip_rightD)

lemma try_block_directories:
  "try_block e s j = Some (r, s') \<Longrightarrow>
   \<exists>rows. directories s' = directories s @ rows \<and> (\<forall>d \<in> set rows. dir_parentId d = None)"
  unfolding try_block_def Let_def
  apply (clarsimp split: sum.splits prod.splits option.splits if_splits
      simp: directory_transaction_def sendProcessingUpdate_def Let_def
      dest!: processFilesInBatches_frame enqueue_children_frame)
     apply (auto dest!: created_rows_parent directoryData_parent)
  done

text \<open>
  C3. The code does not do what the claim says. After the root job, the row of \<open>src\<close>
  exists with the identifier \<open>d0\<close>; the job for \<open>src\<close> then creates the row of \<open>src/lib\<close>
  with no parent, where the claim asks for the parent \<open>d0\<close>.
\<close>

theorem subdirectory_parent_is_null:
  "map_option directories (exec demo_env demo_init [Process 0]) =
     Some [\<lparr>dir_path = ''src'', dir_repositoryId = ''R1'', dir_parentId = None, dir_id = ''d0''\<rparr>,
           \<lparr>dir_path = ''docs'', dir_repositoryId = ''R1'', dir_parentId = None, dir_id = ''d1''\<rparr>] \<and>
   map_option queue (exec demo_env demo_init [Process 0]) = Some [demo_job ''src'', demo_job ''docs''] \<and>
   map_option directories (exec demo_env demo_init [Process 0, Process 0]) =
     Some [\<lparr>dir_path = ''src'', dir_repositoryId = ''R1'', dir_parentId = None, dir_id = ''d0''\<rparr>,
           \<lparr>dir_path = ''docs'', dir_repositoryId = ''R1'', dir_parentId = None, dir_id = ''d1''\<rparr>,
           \<lparr>dir_path = ''src/lib'', dir_repositoryId = ''R1'', dir_parentId = None,
              dir_id = ''d2''\<rparr>]"
  by (simp add: model_simps demo_simps string_of_nat.simps digit_def)

text \<open>
  C4. The code does not do what the claim says. The job for \<open>src\<close> looks its own directory
  up in the map of the rows it has just created, which holds \<open>src/lib\<close> only: the file
  \<open>src/main.ts\<close> is saved with no directory, where the claim asks for \<open>d0\<close>, the row of \<open>src\<close>.
\<close>

theorem file_directory_is_null:
  "map_option files (exec demo_env demo_init [Process 0, Process 0]) =
     Some [\<lparr>file_path = ''README.md'', file_name = ''README.md'', file_content = [],
              file_repositoryId = ''R1'', file_directoryId = None\<rparr>,
           \<lparr>file_path = ''src/main.ts'', file_name = ''main.ts'', file_content = [],
              file_repositoryId = ''R1'', file_directoryId = None\<rparr>] \<and>
   map_option (\<lambda>s. map dir_id (filter (\<lambda>d. dir_path d = ''src'') (directories s)))
     (exec demo_env demo_init [Process 0, Process 0]) = Some [''d0'']"
  by (simp add: model_simps demo_simps string_of_nat.simps digit_def)

section \<open>Increment before enqueue\<close>













section \<open>The counter covers the outstanding jobs\<close>

lemma pending_jobs_key_inj [simp]: "pending_jobs_key r = pending_jobs_key r' \<longleftrightarrow> r = r'"
  by (simp add: pending_jobs_key_def)

lemma counter_queue_update [simp]: "counter (s\<lparr>queue := q\<rparr>) k = counter s k"
  by (simp add: counter_def)

lemma apply_event_counter:
  "counter (apply_event s ev) k = counter s k + (if ev = Incr k then 1 else 0)"
  by (cases ev) (simp_all add: apply_event_def)

lemma apply_event_queue:
  "queue (apply_event s ev) = queue s @ (case ev of Incr k \<Rightarrow> [] | Add c \<Rightarrow> [c])"
  by (cases ev) (auto simp: apply_event_def incr_def)

lemma foldl_apply_event_counter:
  "counter (foldl apply_event s evs) k = counter s k + int (length (filter (\<lambda>ev. ev = Incr k) evs))"
  by (induction evs arbitrary: s) (simp_all add: apply_event_counter)

lemma foldl_apply_event_queue:
  "queue (foldl apply_event s evs) =
     queue s @ concat (map (\<lambda>ev. case ev of Incr k \<Rightarrow> [] | Add c \<Rightarrow> [c]) evs)"
  by (induction evs arbitrary: s) (simp_all add: apply_event_queue)

lemma added_jobs_append [simp]: "added_jobs (a @ b) = added_jobs a @ added_jobs b"
  by (simp add: added_jobs_def)

lemma added_jobs_Nil [simp]: "added_jobs [] = []"
  by (simp add: added_jobs_def)

lemma child_task_balance:
  "length (added_jobs (fst (child_task e j x))) \<le>
     length (filter (\<lambda>ev. ev = Incr (pending_jobs_key (job_repositoryId j)))
       (fst (child_task e j x)))"
  "c \<in> set (added_jobs (fst (child_task e j x))) \<Longrightarrow> job_repositoryId c = job_repositoryId j"
  "k \<noteq> pending_jobs_key (job_repositoryId j) \<Longrightarrow>
     filter (\<lambda>ev. ev = Incr k) (fst (child_task e j x)) = []"
  by (cases x; auto simp: child_task_def added_jobs_def child_job_def split: if_splits)+

lemma child_events_balance:
  "length (added_jobs (concat (map (fst \<circ> child_task e j) xs))) \<le>
     length (filter (\<lambda>ev. ev = Incr (pending_jobs_key (job_repositoryId j)))
       (concat (map (fst \<circ> child_task e j) xs)))"
  "c \<in> set (added_jobs (concat (map (fst \<circ> child_task e j) xs))) \<Longrightarrow>
     job_repositoryId c = job_repositoryId j"
  "k \<noteq> pending_jobs_key (job_repositoryId j) \<Longrightarrow>
     filter (\<lambda>ev. ev = Incr k) (concat (map (fst \<circ> child_task e j) xs)) = []"
proof (induction xs)
  case Nil
  {
    case 1 show ?case by simp
  next
    case 2 then show ?case by simp
  next
    case 3 show ?case by simp
  }
next
  case (Cons x xs)
  {
    case 1
    show ?case using Cons.IH(1) child_task_balance(1) [of e j x] by simp
  next
    case 2
    then show ?case using Cons.IH(2) child_task_balance(2) [of c e j x] by auto
  next
    case 3
    then show ?case using Cons.IH(3) child_task_balance(3) [of k j e x] by simp
  }
qed

lemma enqueue_children_effect:
  assumes "enqueue_children e s j dirs = (r, s')"
  shows "\<exists>added. queue s' = queue s @ added \<and>
     (\<forall>c \<in> set added. job_repositoryId c = job_repositoryId j) \<and>
     counter s (pending_jobs_key (job_repositoryId j)) + int (length added) \<le>
       counter s' (pending_jobs_key (job_repositoryId j)) \<and>
     (\<forall>k. k \<noteq> pending_jobs_key (job_repositoryId j) \<longrightarrow> counter s' k = counter s k)"
proof -
  let ?evs = "concat (map (fst \<circ> child_task e j) (zip [0 ..< length dirs] dirs))"
  have s': "s' = foldl apply_event s ?evs"
    using assms by (simp add: enqueue_children_def Let_def)
  note b = child_events_balance [where e = e and j = j and xs = "zip [0 ..< length dirs] dirs"]
  show ?thesis
    apply (rule exI [of _ "added_jobs ?evs"])
    unfolding s' foldl_apply_event_counter foldl_apply_event_queue added_jobs_def [symmetric]
    using b(1) by (auto simp: b(3) dest: b(2))
qed


lemma counter_cong: "redis s' = redis s \<Longrightarrow> counter s' k = counter s k"
  by (simp add: counter_def)

lemma try_block_inversion:
  assumes "try_block e s j = Some (r, s')"
  obtains
    (fetch_failed) err where
      "fetchGithubContent e (job_owner j) (job_repo j) (job_path j) (job_repositoryId j) = Inl err"
      "r = Inl err" "s' = s"
  | (directories_failed) items err s2 where
      "fetchGithubContent e (job_owner j) (job_repo j) (job_path j) (job_repositoryId j) = Inr items"
      "directory_transaction e (directory_tx_fails e j)
         (sendProcessingUpdate s (job_repositoryId j) PROCESSING (processing_message (job_path j)))
         (directoryData Map.empty (job_repositoryId j) (dirs_of items)) = (Inl err, s2)"
      "r = Inl err" "s' = s2"
  | (files_failed) items created s2 err s3 where
      "fetchGithubContent e (job_owner j) (job_repo j) (job_path j) (job_repositoryId j) = Inr items"
      "directory_transaction e (directory_tx_fails e j)
         (sendProcessingUpdate s (job_repositoryId j) PROCESSING (processing_message (job_path j)))
         (directoryData Map.empty (job_repositoryId j) (dirs_of items)) = (Inr created, s2)"
      "processFilesInBatches (FILE_BATCH_SIZE e) (file_tx_fails e j) s2 (files_of items)
         (job_repositoryId j) (job_path j)
         (lookup_directoryId (set_all Map.empty created) (files_of items)) = Some (Inl err, s3)"
      "r = Inl err" "s' = s3"
  | (children_failed) items created s2 s3 err s4 where
      "fetchGithubContent e (job_owner j) (job_repo j) (job_path j) (job_repositoryId j) = Inr items"
      "directory_transaction e (directory_tx_fails e j)
         (sendProcessingUpdate s (job_repositoryId j) PROCESSING (processing_message (job_path j)))
         (directoryData Map.empty (job_repositoryId j) (dirs_of items)) = (Inr created, s2)"
      "processFilesInBatches (FILE_BATCH_SIZE e) (file_tx_fails e j) s2 (files_of items)
         (job_repositoryId j) (job_path j)
         (lookup_directoryId (set_all Map.empty created) (files_of items)) = Some (Inr (), s3)"
      "enqueue_children e s3 j (dirs_of items) = (Inl err, s4)"
      "r = Inl err" "s' = s4"
  | (finished) items created s2 s3 s4 where
      "fetchGithubContent e (job_owner j) (job_repo j) (job_path j) (job_repositoryId j) = Inr items"
      "directory_transaction e (directory_tx_fails e j)
         (sendProcessingUpdate s (job_repositoryId j) PROCESSING (processing_message (job_path j)))
         (directoryData Map.empty (job_repositoryId j) (dirs_of items)) = (Inr created, s2)"
      "processFilesInBatches (FILE_BATCH_SIZE e) (file_tx_fails e j) s2 (files_of items)
         (job_repositoryId j) (job_path j)
         (lookup_directoryId (set_all Map.empty created) (files_of items)) = Some (Inr (), s3)"
      "enqueue_children e s3 j (dirs_of items) = (Inr (), s4)"
      "r = Inr (length items)"
      "s' = sendProcessingUpdate s4 (job_repositoryId j) PROCESSING (finished_message (job_path j))"
  using assms unfolding try_block_def Let_def
  by (auto split: sum.splits prod.splits option.splits)

lemma try_block_effect:
  assumes "try_block e s j = Some (r, s')"
  shows "\<exists>added. queue s' = queue s @ added \<and>
     (\<forall>c \<in> set added. job_repositoryId c = job_repositoryId j) \<and>
     counter s (pending_jobs_key (job_repositoryId j)) + int (length added) \<le>
       counter s' (pending_jobs_key (job_repositoryId j)) \<and>
     (\<forall>k. k \<noteq> pending_jobs_key (job_repositoryId j) \<longrightarrow> counter s' k = counter s k)"
proof -
  let ?s1 = "sendProcessingUpdate s (job_repositoryId j) PROCESSING (processing_message (job_path j))"
  have s1: "queue ?s1 = queue s" "redis ?s1 = redis s" by (simp_all add: sendProcessingUpdate_def)
  have none: ?thesis if "queue s' = queue s" and rd: "redis s' = redis s"
    using that(1) counter_cong [OF rd] by (intro exI [of _ "[]"]) simp
  have some: "?thesis" if en: "enqueue_children e s3 j dirs = (r', s4)"
    and q: "queue s3 = queue s" "queue s' = queue s4"
    and rd: "redis s3 = redis s" "redis s' = redis s4" for s3 r' s4 dirs
  proof -
    from enqueue_children_effect [OF en] obtain added where
      a: "queue s4 = queue s3 @ added" "\<forall>c \<in> set added. job_repositoryId c = job_repositoryId j"
        "counter s3 (pending_jobs_key (job_repositoryId j)) + int (length added) \<le>
           counter s4 (pending_jobs_key (job_repositoryId j))"
        "\<forall>k. k \<noteq> pending_jobs_key (job_repositoryId j) \<longrightarrow> counter s4 k = counter s3 k"
      by blast
    show ?thesis
      apply (rule exI [of _ added])
      using a q counter_cong [OF rd(1)] counter_cong [OF rd(2)] by simp
  qed
  from assms show ?thesis
  proof (cases rule: try_block_inversion)
    case (fetch_failed err)
    then show ?thesis by (intro none) simp_all
  next
    case (directories_failed items err s2)
    show ?thesis
      using directory_transaction_frame [OF directories_failed(2)] s1 directories_failed(4)
      by (intro none) simp_all
  next
    case (files_failed items created s2 err s3)
    show ?thesis
      using directory_transaction_frame [OF files_failed(2)]
        processFilesInBatches_frame [OF files_failed(3)] s1 files_failed(5)
      by (intro none) simp_all
  next
    case (children_failed items created s2 s3 err s4)
    have a: "queue s3 = queue s" "redis s3 = redis s"
      using directory_transaction_frame [OF children_failed(2)]
        processFilesInBatches_frame [OF children_failed(3)] s1 by simp_all
    have b: "queue s' = queue s4" "redis s' = redis s4"
      using children_failed(6) by simp_all
    show ?thesis by (rule some [OF children_failed(4) a(1) b(1) a(2) b(2)])
  next
    case (finished items created s2 s3 s4)
    have a: "queue s3 = queue s" "redis s3 = redis s"
      using directory_transaction_frame [OF finished(2)]
        processFilesInBatches_frame [OF finished(3)] s1 by simp_all
    have b: "queue s' = queue s4" "redis s' = redis s4"
      using finished(6) by (simp_all add: sendProcessingUpdate_def)
    show ?thesis by (rule some [OF finished(4) a(1) b(1) a(2) b(2)])
  qed
qed

lemma catch_block_frame:
  "catch_block s j = (r, s') \<Longrightarrow>
   queue s' = queue s \<and> redis s' = redis s \<and> completedEvents s' = completedEvents s \<and>
   failedEvents s' = failedEvents s \<and> directories s' = directories s \<and> files s' = files s \<and>
   txLog s' = txLog s"
  by (auto simp: catch_block_def repository_update_def sendProcessingUpdate_def
      split: option.splits)

lemma directoryWorker_effect:
  assumes "directoryWorker e s j = Some (r, s')"
  shows "(\<exists>added. queue s' = queue s @ added \<and>
     (\<forall>c \<in> set added. job_repositoryId c = job_repositoryId j) \<and>
     counter s (pending_jobs_key (job_repositoryId j)) + int (length added) \<le>
       counter s' (pending_jobs_key (job_repositoryId j)) \<and>
     (\<forall>k. k \<noteq> pending_jobs_key (job_repositoryId j) \<longrightarrow> counter s' k = counter s k)) \<and>
     completedEvents s' = completedEvents s \<and> failedEvents s' = failedEvents s"
proof -
  from assms obtain r1 s1 where t: "try_block e s j = Some (r1, s1)"
    and c: "(\<exists>err. r1 = Inl err \<and> catch_block s1 j = (r, s')) \<or> s' = s1"
    by (auto simp: directoryWorker_def split: option.splits sum.splits prod.splits)
  have f: "queue s' = queue s1" "redis s' = redis s1" "completedEvents s' = completedEvents s1"
      "failedEvents s' = failedEvents s1"
    using c catch_block_frame by blast+
  have cnt: "counter s' k = counter s1 k" for k by (rule counter_cong [OF f(2)])
  show ?thesis
    unfolding f cnt using try_block_effect [OF t] try_block_frame [OF t] by simp
qed


lemma jobs_of_append [simp]: "jobs_of r (xs @ ys) = jobs_of r xs + jobs_of r ys"
  by (simp add: jobs_of_def)

lemma jobs_of_remove_nth:
  "i < length xs \<Longrightarrow>
   jobs_of r (remove_nth i xs) + (if job_repositoryId (xs ! i) = r then 1 else 0) = jobs_of r xs"
proof -
  assume i: "i < length xs"
  have "xs = take i xs @ xs ! i # drop (Suc i) xs" using i by (simp add: id_take_nth_drop)
  then have "jobs_of r xs = jobs_of r (take i xs @ xs ! i # drop (Suc i) xs)" by simp
  then show ?thesis by (simp add: jobs_of_def remove_nth_def)
qed

lemma jobs_of_same:
  "\<forall>c \<in> set added. job_repositoryId c = r' \<Longrightarrow>
   jobs_of r added = (if r = r' then length added else 0)"
  by (induction added) (auto simp: jobs_of_def)

lemma step_covers:
  assumes st: "step e s a = Some s'"
    and inv: "int (outstanding r s) \<le> counter s (pending_jobs_key r)"
  shows "int (outstanding r s') \<le> counter s' (pending_jobs_key r)"
proof (cases a)
  case (Process i)
  let ?j = "queue s ! i"
  let ?s0 = "s\<lparr>queue := remove_nth i (queue s)\<rparr>"
  from st Process have i: "i < length (queue s)"
    by (auto simp: step_def split: if_splits)
  from st Process i obtain res s1 where w: "directoryWorker e ?s0 ?j = Some (res, s1)"
    and s': "s' = s1\<lparr>completedEvents := completedEvents s1 @ [?j]\<rparr> \<or>
             s' = s1\<lparr>failedEvents := failedEvents s1 @ [?j]\<rparr>"
    by (auto simp: step_def split: option.splits sum.splits prod.splits)
  from directoryWorker_effect [OF w] obtain added where
    q: "queue s1 = remove_nth i (queue s) @ added"
    and same: "\<forall>c \<in> set added. job_repositoryId c = job_repositoryId ?j"
    and cnt: "counter s (pending_jobs_key (job_repositoryId ?j)) + int (length added) \<le>
       counter s1 (pending_jobs_key (job_repositoryId ?j))"
    and other: "\<forall>k. k \<noteq> pending_jobs_key (job_repositoryId ?j) \<longrightarrow> counter s1 k = counter s k"
    and ce: "completedEvents s1 = completedEvents s"
    by auto
  have c': "counter s' k = counter s1 k" for k using s' by (auto simp: counter_def)
  have o': "outstanding r s' \<le> jobs_of r (remove_nth i (queue s)) + jobs_of r added +
      jobs_of r (completedEvents s) + (if job_repositoryId ?j = r then 1 else 0)"
    using s' q ce by (auto simp: outstanding_def jobs_of_def)
  note rm = jobs_of_remove_nth [OF i, of r]
  note ja = jobs_of_same [OF same, of r]
  show ?thesis
  proof (cases "job_repositoryId ?j = r")
    case True
    have "outstanding r s' \<le> outstanding r s + length added"
      using o' rm ja True by (simp add: outstanding_def)
    then show ?thesis using inv cnt True c' by simp
  next
    case False
    have "outstanding r s' \<le> outstanding r s"
      using o' rm ja False by (auto simp: outstanding_def)
    moreover have "counter s' (pending_jobs_key r) = counter s (pending_jobs_key r)"
      using other False c' by simp
    ultimately show ?thesis using inv by simp
  qed
next
  case (Complete i)
  let ?j = "completedEvents s ! i"
  from st Complete have i: "i < length (completedEvents s)"
    and s': "s' = on_completed (s\<lparr>completedEvents := remove_nth i (completedEvents s)\<rparr>) ?j"
    by (auto simp: step_def split: if_splits)
  have q: "queue s' = queue s" and ce: "completedEvents s' = remove_nth i (completedEvents s)"
    unfolding s'
    by (simp_all add: on_completed_def Let_def decr_def findUnique_def repository_update_def
        sendProcessingUpdate_def)
  have c: "counter s' (pending_jobs_key r) =
      counter s (pending_jobs_key r) - (if job_repositoryId ?j = r then 1 else 0)"
    unfolding s'
    by (simp add: on_completed_def Let_def decr_def findUnique_def repository_update_def
        sendProcessingUpdate_def counter_def)
  note rm = jobs_of_remove_nth [OF i, of r]
  show ?thesis using inv rm unfolding outstanding_def q ce c by (auto split: if_splits)
next
  case (Fail i)
  with st have "s' = s\<lparr>failedEvents := remove_nth i (failedEvents s)\<rparr>"
    by (auto simp: step_def on_failed_def split: if_splits)
  then show ?thesis using inv by (simp add: outstanding_def counter_def)
qed

lemma exec_covers:
  "exec e s acts = Some s' \<Longrightarrow> int (outstanding r s) \<le> counter s (pending_jobs_key r) \<Longrightarrow>
   int (outstanding r s') \<le> counter s' (pending_jobs_key r)"
proof (induction acts arbitrary: s)
  case Nil
  then show ?case by simp
next
  case (Cons a acts)
  from Cons.prems obtain s1 where a: "step e s a = Some s1" and rest: "exec e s1 acts = Some s'"
    by (auto split: option.splits)
  from Cons.IH [OF rest step_covers [OF a Cons.prems(2)]] show ?case .
qed


section \<open>The run is declared complete at most once\<close>

lemma completions_send:
  "completions r (sendProcessingUpdate s rid st msg) =
     completions r s + (if rid = r \<and> st = SUCCESS \<and> msg = completion_message then 1 else 0)"
  by (simp add: completions_def sendProcessingUpdate_def)

lemma completions_other_fields [simp]:
  "completions r (s\<lparr>repositories := a\<rparr>) = completions r s"
  "completions r (s\<lparr>directories := b\<rparr>) = completions r s"
  "completions r (s\<lparr>files := c\<rparr>) = completions r s"
  "completions r (s\<lparr>txLog := d\<rparr>) = completions r s"
  "completions r (s\<lparr>redis := f\<rparr>) = completions r s"
  "completions r (s\<lparr>queue := g\<rparr>) = completions r s"
  "completions r (s\<lparr>completedEvents := h\<rparr>) = completions r s"
  "completions r (s\<lparr>failedEvents := k\<rparr>) = completions r s"
  by (simp_all add: completions_def)

lemma completions_cong: "updates s' = updates s \<Longrightarrow> completions r s' = completions r s"
  by (simp add: completions_def)

lemma finish_message_not_completion: "finish_message n cp \<noteq> completion_message"
  by (simp add: finish_message_def completion_message_def)

lemma save_batches_completions:
  "save_batches fails rid cp did nb i bs s = (res, s') \<Longrightarrow> completions r s' = completions r s"
proof (induction bs arbitrary: i s)
  case Nil
  then show ?case by simp
next
  case (Cons b bs)
  show ?case
  proof (cases "fails i")
    case True
    then show ?thesis using Cons.prems by (auto simp: file_transaction_def)
  next
    case False
    let ?s1 = "sendProcessingUpdate
        (s\<lparr>files := files s @ map (file_create rid did) b,
           txLog := txLog s @ [FileTx (map (file_create rid did) b) True]\<rparr>)
        rid PROCESSING (saved_batch_message i nb (length b) cp)"
    have "save_batches fails rid cp did nb (Suc i) bs ?s1 = (res, s')"
      using Cons.prems False by (simp add: file_transaction_def)
    from Cons.IH [OF this] show ?thesis
      by (simp add: completions_send)
  qed
qed

lemma processFilesInBatches_completions:
  "processFilesInBatches B fails s fs rid cp did = Some (res, s') \<Longrightarrow>
   completions r s' = completions r s"
  unfolding processFilesInBatches_def Let_def
  by (auto split: option.splits prod.splits sum.splits dest!: save_batches_completions [where r = r]
      simp: completions_send finish_message_not_completion)

lemma try_block_completions:
  assumes "try_block e s j = Some (res, s')"
  shows "completions r s' = completions r s"
proof -
  let ?s1 = "sendProcessingUpdate s (job_repositoryId j) PROCESSING (processing_message (job_path j))"
  have s1: "completions r ?s1 = completions r s" by (simp add: completions_send)
  have d: "completions r s2 = completions r ?s1"
    if "directory_transaction e fl ?s1 ds = (rd, s2)" for fl ds rd s2
    using directory_transaction_frame [OF that] by (intro completions_cong) simp
  have c: "completions r s4 = completions r s3"
    if "enqueue_children e s3 j ds = (rc, s4)" for s3 ds rc s4
    using enqueue_children_frame [OF that] by (intro completions_cong) simp
  from assms show ?thesis
  proof (cases rule: try_block_inversion)
    case (fetch_failed err)
    then show ?thesis by simp
  next
    case (directories_failed items err s2)
    then show ?thesis using d [OF directories_failed(2)] s1 by simp
  next
    case (files_failed items created s2 err s3)
    then show ?thesis
      using d [OF files_failed(2)] processFilesInBatches_completions [OF files_failed(3), of r] s1
      by simp
  next
    case (children_failed items created s2 s3 err s4)
    then show ?thesis
      using d [OF children_failed(2)]
        processFilesInBatches_completions [OF children_failed(3), of r]
        c [OF children_failed(4)] s1
      by simp
  next
    case (finished items created s2 s3 s4)
    then show ?thesis
      using d [OF finished(2)] processFilesInBatches_completions [OF finished(3), of r]
        c [OF finished(4)] s1
      by (simp add: completions_send)
  qed
qed

lemma directoryWorker_completions:
  assumes "directoryWorker e s j = Some (res, s')"
  shows "completions r s' = completions r s"
proof -
  from assms obtain r1 s1 where t: "try_block e s j = Some (r1, s1)"
    and c: "catch_block s1 j = (res, s') \<or> s' = s1"
    by (auto simp: directoryWorker_def split: option.splits sum.splits prod.splits)
  have "completions r s' = completions r s1"
    using c
    by (auto simp: catch_block_def repository_update_def completions_send
        split: option.splits)
  then show ?thesis using try_block_completions [OF t, of r] by simp
qed

lemma on_completed_completions:
  "completions r (on_completed s j) =
     completions r s +
     (if job_repositoryId j = r \<and> counter s (pending_jobs_key r) - 1 = 0 \<and>
         repositories s r = Some PROCESSING then 1 else 0)"
  by (auto simp: on_completed_def Let_def decr_def findUnique_def repository_update_def
      completions_send counter_def)

lemma step_completions:
  assumes st: "step e s a = Some s'"
  shows "completions r s' = completions r s \<or>
     (completions r s' = Suc (completions r s) \<and> (\<exists>i. a = Complete i) \<and>
      repositories s r = Some PROCESSING \<and> repositories s' r = Some SUCCESS \<and>
      counter s' (pending_jobs_key r) = 0)"
proof (cases a)
  case (Process i)
  with st obtain res s1 where
    w: "directoryWorker e (s\<lparr>queue := remove_nth i (queue s)\<rparr>) (queue s ! i) = Some (res, s1)"
    and s': "updates s' = updates s1"
    by (auto simp: step_def split: if_splits option.splits sum.splits prod.splits)
  from directoryWorker_completions [OF w, of r] completions_cong [OF s', of r]
  show ?thesis by simp
next
  case (Complete i)
  let ?s0 = "s\<lparr>completedEvents := remove_nth i (completedEvents s)\<rparr>"
  let ?j = "completedEvents s ! i"
  from st Complete have s': "s' = on_completed ?s0 ?j"
    by (auto simp: step_def split: if_splits)
  have c0: "completions r ?s0 = completions r s" by simp
  show ?thesis
  proof (cases "job_repositoryId ?j = r \<and> counter ?s0 (pending_jobs_key r) - 1 = 0 \<and>
         repositories ?s0 r = Some PROCESSING")
    case True
    have "completions r s' = Suc (completions r s)"
      unfolding s' on_completed_completions using True c0 by simp
    moreover have "repositories s' r = Some SUCCESS" "counter s' (pending_jobs_key r) = 0"
      unfolding s' using True
      by (auto simp: on_completed_def Let_def decr_def findUnique_def repository_update_def
          sendProcessingUpdate_def counter_def)
    ultimately show ?thesis using True Complete by simp
  next
    case False
    have "completions r s' = completions r s"
      unfolding s' on_completed_completions using False c0 by auto
    then show ?thesis by simp
  qed
next
  case (Fail i)
  with st have "updates s' = updates s"
    by (auto simp: step_def on_failed_def split: if_splits)
  then show ?thesis using completions_cong [of s' s r] by simp
qed

lemma exec_completions:
  "exec e s acts = Some s' \<Longrightarrow>
   completions r s' \<le> completions r s + (if repositories s r = Some PROCESSING then 1 else 0) \<and>
   (completions r s < completions r s' \<longrightarrow> repositories s' r \<noteq> Some PROCESSING)"
proof (induction acts arbitrary: s)
  case Nil
  then show ?case by simp
next
  case (Cons a acts)
  from Cons.prems obtain s1 where a: "step e s a = Some s1" and rest: "exec e s1 acts = Some s'"
    by (auto split: option.splits)
  note ih = Cons.IH [OF rest]
  note np = exec_never_processing [OF rest, of r]
  from step_completions [OF a, of r] show ?case
  proof (elim disjE conjE)
    assume same: "completions r s1 = completions r s"
    have "repositories s r \<noteq> Some PROCESSING \<Longrightarrow> repositories s1 r \<noteq> Some PROCESSING"
      using step_status [OF a, of r] by auto
    then show ?thesis using ih same by (auto split: if_splits)
  next
    assume up: "completions r s1 = Suc (completions r s)"
      and p: "repositories s r = Some PROCESSING" and s: "repositories s1 r = Some SUCCESS"
    then have "repositories s1 r \<noteq> Some PROCESSING" by simp
    then show ?thesis using ih up p np by (auto split: if_splits)
  qed
qed


lemma step_success:
  assumes st: "step e s a = Some s'"
    and new: "repositories s' r = Some SUCCESS" "repositories s r \<noteq> Some SUCCESS"
  shows "completions r s' = Suc (completions r s) \<and> counter s' (pending_jobs_key r) = 0"
proof -
  from step_status [OF st, of r] new obtain i where a: "a = Complete i"
    and p: "repositories s r = Some PROCESSING" by auto
  let ?s0 = "s\<lparr>completedEvents := remove_nth i (completedEvents s)\<rparr>"
  let ?j = "completedEvents s ! i"
  from st a have s': "s' = on_completed ?s0 ?j"
    by (auto simp: step_def split: if_splits)
  have fired: "job_repositoryId ?j = r \<and> counter ?s0 (pending_jobs_key r) - 1 = 0"
    using new(1) p unfolding s'
    by (auto simp: on_completed_def Let_def decr_def findUnique_def repository_update_def
        sendProcessingUpdate_def counter_def split: if_splits)
  from step_completions [OF st, of r] show ?thesis
  proof (elim disjE conjE)
    assume "completions r s' = completions r s"
    moreover have "completions r s' = Suc (completions r s)"
      unfolding s' on_completed_completions using fired p by simp
    ultimately show ?thesis by simp
  qed simp
qed

text \<open>
  C8. Start from any state in which the counter of the run is at least the number of its
  jobs that are waiting or whose \<open>completed\<close> event is pending (one waiting root job and a
  counter of 1, for instance). Then in every state any order of steps reaches, the counter
  is still at least that number, so it is never negative. Along any execution the handler
  of \<open>completed\<close> declares the run complete at most once, and if it has done so the status
  is no longer \<open>PROCESSING\<close>; a handler that runs when the status is not \<open>PROCESSING\<close>
  changes neither the status nor the count, whatever the counter says. Every step that
  sets the status to \<open>SUCCESS\<close> is one of these declarations, made with the counter at 0.
\<close>

theorem counter_covers_success_once:
  "(exec e s0 acts = Some s \<and> int (outstanding r s0) \<le> counter s0 (pending_jobs_key r) \<longrightarrow>
      0 \<le> counter s (pending_jobs_key r) \<and>
      int (outstanding r s) \<le> counter s (pending_jobs_key r)) \<and>
   (exec e s0 acts = Some s \<longrightarrow>
      completions r s \<le> completions r s0 + 1 \<and>
      (completions r s0 < completions r s \<longrightarrow> repositories s r \<noteq> Some PROCESSING)) \<and>
   (step e s (Complete i) = Some s' \<and> repositories s r \<noteq> Some PROCESSING \<longrightarrow>
      repositories s' r = repositories s r \<and> completions r s' = completions r s) \<and>
   (step e s a = Some s' \<and> repositories s' r = Some SUCCESS \<and>
    repositories s r \<noteq> Some SUCCESS \<longrightarrow>
      completions r s' = Suc (completions r s) \<and> counter s' (pending_jobs_key r) = 0)"
proof (intro conjI impI)
  assume h: "exec e s0 acts = Some s \<and> int (outstanding r s0) \<le> counter s0 (pending_jobs_key r)"
  then show c: "int (outstanding r s) \<le> counter s (pending_jobs_key r)"
    using exec_covers by blast
  have "0 \<le> int (outstanding r s)" by simp
  then show "0 \<le> counter s (pending_jobs_key r)" using c by linarith
next
  assume h: "exec e s0 acts = Some s"
  from exec_completions [OF h, of r]
  show "completions r s \<le> completions r s0 + 1"
    and "completions r s0 < completions r s \<Longrightarrow> repositories s r \<noteq> Some PROCESSING"
    by (auto split: if_splits)
next
  assume h: "step e s (Complete i) = Some s' \<and> repositories s r \<noteq> Some PROCESSING"
  then have st: "step e s (Complete i) = Some s'" and np: "repositories s r \<noteq> Some PROCESSING"
    by simp_all
  from step_status [OF st, of r] np show "repositories s' r = repositories s r" by auto
  from step_completions [OF st, of r] np show "completions r s' = completions r s" by auto
next
  assume h: "step e s a = Some s' \<and> repositories s' r = Some SUCCESS \<and>
    repositories s r \<noteq> Some SUCCESS"
  then show "completions r s' = Suc (completions r s)" and "counter s' (pending_jobs_key r) = 0"
    using step_success by blast+
qed

theorem counter_covers_success_once_witness:
  "\<exists>s. exec demo_env (demo_init\<lparr>queue := [demo_job ''docs'']\<rparr>) [Process 0, Complete 0] = Some s \<and>
       0 \<le> counter s (pending_jobs_key ''R1'') \<and> completions ''R1'' s \<le> 1 \<and>
       repositories s ''R1'' = Some SUCCESS"
proof -
  let ?init = "demo_init\<lparr>queue := [demo_job ''docs'']\<rparr>"
  let ?acts = "[Process 0, Complete 0]"
  let ?final = "demo_init\<lparr>repositories := [''R1'' \<mapsto> SUCCESS], queue := [],
      redis := [pending_jobs_key ''R1'' \<mapsto> 0],
      txLog := [DirectoryTx [] True],
      updates := [(''R1'', PROCESSING, processing_message ''docs''),
                  (''R1'', PROCESSING, start_message 0 ''docs''),
                  (''R1'', SUCCESS, finish_message 0 ''docs''),
                  (''R1'', PROCESSING, finished_message ''docs''),
                  (''R1'', SUCCESS, completion_message)]\<rparr>"
  have run: "exec demo_env ?init ?acts = Some ?final"
    by (simp add: model_simps demo_simps)
  have init: "int (outstanding ''R1'' ?init) \<le> counter ?init (pending_jobs_key ''R1'')"
    by (simp add: outstanding_def jobs_of_def demo_simps counter_def)
  have c0: "completions ''R1'' ?init = 0" by (simp add: completions_def demo_simps)
  note t = counter_covers_success_once [where e = demo_env and ?s0.0 = ?init and acts = ?acts
      and s = ?final and r = "''R1''"]
  have "0 \<le> counter ?final (pending_jobs_key ''R1'')" using t run init by blast
  moreover have "completions ''R1'' ?final \<le> completions ''R1'' ?init + 1" using t run by blast
  moreover have "repositories ?final ''R1'' = Some SUCCESS" by simp
  ultimately show ?thesis using run c0 by (intro exI [of _ ?final]) simp
qed

section \<open>What one job does\<close>

lemma save_batches_summary:
  "fst (save_batches fails rid cp did nb i bs s) =
     (if batches_ok fails i bs then Inr () else Inl TransactionError) \<and>
   files (snd (save_batches fails rid cp did nb i bs s)) =
     files s @ map (file_create rid did) (committed fails i bs)"
proof (induction bs arbitrary: i s)
  case Nil
  then show ?case by simp
next
  case (Cons b bs)
  show ?case
    by (simp add: file_transaction_def Cons.IH sendProcessingUpdate_def)
qed

lemma processFilesInBatches_summary:
  assumes "processFilesInBatches B fails s fs rid cp did = Some (r, s')"
  shows "\<exists>bs. fileBatches_loop B fs 0 [] = Some bs \<and>
     r = (if batches_ok fails 0 bs then Inr () else Inl TransactionError) \<and>
     files s' = files s @ map (file_create rid did) (committed fails 0 bs)"
proof -
  from assms obtain bs where bs: "fileBatches_loop B fs 0 [] = Some bs"
    by (auto simp: processFilesInBatches_def Let_def split: option.splits)
  let ?s1 = "sendProcessingUpdate s rid PROCESSING (start_message (length fs) cp)"
  let ?sb = "save_batches fails rid cp did (length bs) 0 bs ?s1"
  note sm = save_batches_summary [of fails rid cp did "length bs" 0 bs ?s1]
  have f1: "files ?s1 = files s" by (simp add: sendProcessingUpdate_def)
  from assms bs have "r = fst ?sb" and "files s' = files (snd ?sb)"
    by (auto simp: processFilesInBatches_def Let_def sendProcessingUpdate_def
        split: prod.splits sum.splits)
  then show ?thesis using sm bs f1 by simp
qed

lemma directory_transaction_summary:
  "directory_transaction e fails s ds = (r, s') \<Longrightarrow>
   (fails \<longrightarrow> r = Inl TransactionError \<and> directories s' = directories s) \<and>
   (\<not> fails \<longrightarrow> r = Inr (created_rows e (length (directories s)) ds) \<and>
      directories s' = directories s @ created_rows e (length (directories s)) ds)"
  by (auto simp: directory_transaction_def Let_def split: if_splits)

lemma enqueue_children_summary:
  "enqueue_children e s j dirs =
     ((if child_rejected e j dirs then Inl QueueError else Inr ()),
      foldl apply_event s (child_events e j dirs))"
  by (simp add: enqueue_children_def Let_def child_rejected_def child_events_def)

lemma child_events_counter:
  "counter (foldl apply_event s (child_events e j dirs)) k =
     counter s k +
     (if k = pending_jobs_key (job_repositoryId j)
      then int (length (filter (\<lambda>ev. ev = Incr (pending_jobs_key (job_repositoryId j)))
                  (child_events e j dirs)))
      else 0)"
  unfolding foldl_apply_event_counter child_events_def
  using child_events_balance(3) [of k j e "zip [0 ..< length dirs] dirs"] by simp

lemma child_events_queue:
  "queue (foldl apply_event s (child_events e j dirs)) =
     queue s @ added_jobs (child_events e j dirs)"
  by (simp add: foldl_apply_event_queue added_jobs_def)


lemma try_block_summary:
  assumes t: "try_block e s j = Some (r, s')"
  shows "stage_of e j \<noteq> None \<and>
    ((\<exists>n. r = Inr n) \<longleftrightarrow> stage_of e j = Some Finished) \<and>
    queue s' = queue s @ job_children e j \<and>
    (\<forall>k. counter s' k = counter s k +
       (if k = pending_jobs_key (job_repositoryId j) then int (job_increments e j) else 0)) \<and>
    directories s' = directories s @ job_directory_rows e j (length (directories s)) \<and>
    files s' = files s @ job_file_rows e j (length (directories s))"
proof -
  let ?rid = "job_repositoryId j"
  let ?s1 = "sendProcessingUpdate s ?rid PROCESSING (processing_message (job_path j))"
  have s1: "queue ?s1 = queue s" "redis ?s1 = redis s" "directories ?s1 = directories s"
    "files ?s1 = files s"
    by (simp_all add: sendProcessingUpdate_def)
  from t show ?thesis
  proof (cases rule: try_block_inversion)
    case (fetch_failed err)
    then have st: "stage_of e j = Some FetchFailed" by (simp add: stage_of_def listing_def)
    show ?thesis
      using fetch_failed
      by (simp add: st job_children_def job_events_def job_increments_def job_directory_rows_def
          job_file_rows_def tables_reached_def)
  next
    case (directories_failed items err s2)
    note d = directory_transaction_summary [OF directories_failed(2)]
    note df = directory_transaction_frame [OF directories_failed(2)]
    have fl: "directory_tx_fails e j" using d by auto
    have st: "stage_of e j = Some DirectoriesFailed"
      using directories_failed(1) fl by (simp add: stage_of_def listing_def)
    have cnt: "counter s' k = counter s k" for k
      using counter_cong [of s' s] df s1 directories_failed(4) by simp
    show ?thesis
      using directories_failed d df fl s1 cnt
      by (simp add: st job_children_def job_events_def job_increments_def job_directory_rows_def
          job_file_rows_def tables_reached_def)
  next
    case (files_failed items created s2 err s3)
    note d = directory_transaction_summary [OF files_failed(2)]
    note df = directory_transaction_frame [OF files_failed(2)]
    have fl: "\<not> directory_tx_fails e j" using d by auto
    from processFilesInBatches_summary [OF files_failed(3)] obtain bs where
      bs: "fileBatches_loop (FILE_BATCH_SIZE e) (files_of items) 0 [] = Some bs"
      and ok: "Inl err = (if batches_ok (file_tx_fails e j) 0 bs then Inr () else Inl TransactionError)"
      and fs: "files s3 = files s2 @ map (file_create ?rid
          (lookup_directoryId (set_all Map.empty created) (files_of items)))
          (committed (file_tx_fails e j) 0 bs)"
      by blast
    note pf = processFilesInBatches_frame [OF files_failed(3)]
    have nok: "\<not> batches_ok (file_tx_fails e j) 0 bs" using ok by (auto split: if_splits)
    have st: "stage_of e j = Some FilesFailed"
      using files_failed(1) fl bs nok by (simp add: stage_of_def listing_def)
    have items: "job_items e j = items" using files_failed(1) by (simp add: job_items_def listing_def)
    have cr: "created = created_rows e (length (directories s))
        (directoryData Map.empty ?rid (dirs_of items))" using d fl s1 by simp
    have cnt: "counter s' k = counter s k" for k
      using counter_cong [of s' s] df pf s1 files_failed(5) by simp
    show ?thesis
      using files_failed(4,5) d df fl pf s1 cnt fs bs cr
      by (simp add: st items job_children_def job_events_def job_increments_def
          job_directory_rows_def job_file_rows_def tables_reached_def)
  next
    case (children_failed items created s2 s3 err s4)
    note d = directory_transaction_summary [OF children_failed(2)]
    note df = directory_transaction_frame [OF children_failed(2)]
    have fl: "\<not> directory_tx_fails e j" using d by auto
    from processFilesInBatches_summary [OF children_failed(3)] obtain bs where
      bs: "fileBatches_loop (FILE_BATCH_SIZE e) (files_of items) 0 [] = Some bs"
      and ok: "Inr () = (if batches_ok (file_tx_fails e j) 0 bs then Inr () else Inl TransactionError)"
      and fs: "files s3 = files s2 @ map (file_create ?rid
          (lookup_directoryId (set_all Map.empty created) (files_of items)))
          (committed (file_tx_fails e j) 0 bs)"
      by blast
    note pf = processFilesInBatches_frame [OF children_failed(3)]
    have bok: "batches_ok (file_tx_fails e j) 0 bs" using ok by (auto split: if_splits)
    note en = children_failed(4) [unfolded enqueue_children_summary]
    have rej: "child_rejected e j (dirs_of items)" using en by (auto split: if_splits)
    have s4: "s4 = foldl apply_event s3 (child_events e j (dirs_of items))" using en by simp
    have st: "stage_of e j = Some ChildrenFailed"
      using children_failed(1) fl bs bok rej by (simp add: stage_of_def listing_def)
    have items: "job_items e j = items"
      using children_failed(1) by (simp add: job_items_def listing_def)
    have cr: "created = created_rows e (length (directories s))
        (directoryData Map.empty ?rid (dirs_of items))" using d fl s1 by simp
    have q3: "queue s3 = queue s" and c3: "counter s3 k = counter s k" for k
      using df pf s1 counter_cong [of s3 s] by simp_all
    have tb: "directories s4 = directories s3" "files s4 = files s3"
      unfolding s4 using foldl_apply_event_frame by blast+
    show ?thesis
      using children_failed(5,6) d df fl pf s1 fs bs cr q3 c3 tb
      by (simp add: st items job_children_def job_events_def job_increments_def
          job_directory_rows_def job_file_rows_def tables_reached_def s4
          child_events_counter child_events_queue)
  next
    case (finished items created s2 s3 s4)
    note d = directory_transaction_summary [OF finished(2)]
    note df = directory_transaction_frame [OF finished(2)]
    have fl: "\<not> directory_tx_fails e j" using d by auto
    from processFilesInBatches_summary [OF finished(3)] obtain bs where
      bs: "fileBatches_loop (FILE_BATCH_SIZE e) (files_of items) 0 [] = Some bs"
      and ok: "Inr () = (if batches_ok (file_tx_fails e j) 0 bs then Inr () else Inl TransactionError)"
      and fs: "files s3 = files s2 @ map (file_create ?rid
          (lookup_directoryId (set_all Map.empty created) (files_of items)))
          (committed (file_tx_fails e j) 0 bs)"
      by blast
    note pf = processFilesInBatches_frame [OF finished(3)]
    have bok: "batches_ok (file_tx_fails e j) 0 bs" using ok by (auto split: if_splits)
    note en = finished(4) [unfolded enqueue_children_summary]
    have rej: "\<not> child_rejected e j (dirs_of items)" using en by (auto split: if_splits)
    have s4: "s4 = foldl apply_event s3 (child_events e j (dirs_of items))" using en by simp
    have st: "stage_of e j = Some Finished"
      using finished(1) fl bs bok rej by (simp add: stage_of_def listing_def)
    have items: "job_items e j = items"
      using finished(1) by (simp add: job_items_def listing_def)
    have cr: "created = created_rows e (length (directories s))
        (directoryData Map.empty ?rid (dirs_of items))" using d fl s1 by simp
    have q3: "queue s3 = queue s" and c3: "counter s3 k = counter s k" for k
      using df pf s1 counter_cong [of s3 s] by simp_all
    have tb: "directories s4 = directories s3" "files s4 = files s3"
      unfolding s4 using foldl_apply_event_frame by blast+
    have s': "queue s' = queue s4" "directories s' = directories s4" "files s' = files s4"
      and c': "counter s' k = counter s4 k" for k
      using finished(6) by (simp_all add: sendProcessingUpdate_def counter_def)
    show ?thesis
      using finished(5) d df fl pf s1 fs bs cr q3 c3 tb s' c'
      by (simp add: st items job_children_def job_events_def job_increments_def
          job_directory_rows_def job_file_rows_def tables_reached_def s4
          child_events_counter child_events_queue)
  qed
qed

lemma directoryWorker_summary:
  assumes w: "directoryWorker e s j = Some (r, s')"
  shows "stage_of e j \<noteq> None \<and>
    queue s' = queue s @ job_children e j \<and>
    (\<forall>k. counter s' k = counter s k +
       (if k = pending_jobs_key (job_repositoryId j) then int (job_increments e j) else 0)) \<and>
    directories s' = directories s @ job_directory_rows e j (length (directories s)) \<and>
    files s' = files s @ job_file_rows e j (length (directories s)) \<and>
    completedEvents s' = completedEvents s \<and>
    failedEvents s' = failedEvents s \<and>
    repositories s' =
       (if stage_of e j = Some Finished \<or> repositories s (job_repositoryId j) = None
        then repositories s else (repositories s)(job_repositoryId j \<mapsto> FAILED)) \<and>
    ((\<exists>x. r = Inr x) \<longleftrightarrow>
       stage_of e j = Some Finished \<or> repositories s (job_repositoryId j) \<noteq> None)"
proof -
  from w obtain r1 s1 where t: "try_block e s j = Some (r1, s1)"
    by (auto simp: directoryWorker_def split: option.splits)
  note ts = try_block_summary [OF t]
  note tf = try_block_frame [OF t]
  show ?thesis
  proof (cases r1)
    case (Inr n)
    then have fin: "stage_of e j = Some Finished" using ts by auto
    from w t Inr have "s' = s1" "r = Inr (Processed n)" by (auto simp: directoryWorker_def)
    then show ?thesis using ts tf fin by simp
  next
    case (Inl err)
    then have fin: "stage_of e j \<noteq> Some Finished" using ts by auto
    from w t Inl have c: "catch_block s1 j = (r, s')" by (auto simp: directoryWorker_def)
    note cf = catch_block_frame [OF c]
    have cnt: "counter s' k = counter s1 k" for k using cf counter_cong [of s' s1] by simp
    have rep: "repositories s' =
        (if repositories s1 (job_repositoryId j) = None then repositories s1
         else (repositories s1)(job_repositoryId j \<mapsto> FAILED))"
      and res: "(\<exists>x. r = Inr x) \<longleftrightarrow> repositories s1 (job_repositoryId j) \<noteq> None"
      using c by (auto simp: catch_block_def repository_update_def sendProcessingUpdate_def
          split: option.splits)
    show ?thesis
      using ts tf fin cf cnt rep res by simp
  qed
qed

lemma step_Process_summary:
  assumes st: "step e s (Process i) = Some s'"
  shows "i < length (queue s) \<and> stage_of e (queue s ! i) \<noteq> None \<and>
    queue s' = remove_nth i (queue s) @ job_children e (queue s ! i) \<and>
    (\<forall>k. counter s' k = counter s k +
       (if k = pending_jobs_key (job_repositoryId (queue s ! i))
        then int (job_increments e (queue s ! i)) else 0)) \<and>
    directories s' =
      directories s @ job_directory_rows e (queue s ! i) (length (directories s)) \<and>
    files s' = files s @ job_file_rows e (queue s ! i) (length (directories s)) \<and>
    completedEvents s' = completedEvents s @
      (if stage_of e (queue s ! i) = Some Finished \<or>
          repositories s (job_repositoryId (queue s ! i)) \<noteq> None
       then [queue s ! i] else []) \<and>
    repositories s' =
       (if stage_of e (queue s ! i) = Some Finished \<or>
           repositories s (job_repositoryId (queue s ! i)) = None
        then repositories s
        else (repositories s)(job_repositoryId (queue s ! i) \<mapsto> FAILED))"
proof -
  let ?j = "queue s ! i"
  let ?s0 = "s\<lparr>queue := remove_nth i (queue s)\<rparr>"
  from st have i: "i < length (queue s)"
    by (auto simp: step_def split: if_splits)
  from st i obtain res s1 where w: "directoryWorker e ?s0 ?j = Some (res, s1)"
    and s': "s' = (case res of Inr x \<Rightarrow> s1\<lparr>completedEvents := completedEvents s1 @ [?j]\<rparr>
                   | Inl err \<Rightarrow> s1\<lparr>failedEvents := failedEvents s1 @ [?j]\<rparr>)"
    by (auto simp: step_def split: option.splits sum.splits prod.splits)
  note ws = directoryWorker_summary [OF w]
  have c0: "counter ?s0 k = counter s k" for k by (simp add: counter_def)
  have c': "counter s' k = counter s1 k" for k
    using s' by (auto simp: counter_def split: sum.splits)
  show ?thesis
  proof (cases res)
    case (Inr x)
    then show ?thesis using i ws s' c0 c' by simp
  next
    case (Inl err)
    then show ?thesis using i ws s' c0 c' by simp
  qed
qed

lemma step_Complete_summary:
  assumes st: "step e s (Complete i) = Some s'"
  shows "i < length (completedEvents s) \<and>
    queue s' = queue s \<and> directories s' = directories s \<and> files s' = files s \<and>
    completedEvents s' = remove_nth i (completedEvents s) \<and>
    (\<forall>k. counter s' k = counter s k -
       (if k = pending_jobs_key (job_repositoryId (completedEvents s ! i)) then 1 else 0)) \<and>
    repositories s' =
      (if counter s (pending_jobs_key (job_repositoryId (completedEvents s ! i))) = 1 \<and>
          repositories s (job_repositoryId (completedEvents s ! i)) = Some PROCESSING
       then (repositories s)(job_repositoryId (completedEvents s ! i) \<mapsto> SUCCESS)
       else repositories s)"
proof -
  from st have i: "i < length (completedEvents s)"
    and s': "s' = on_completed (s\<lparr>completedEvents := remove_nth i (completedEvents s)\<rparr>)
        (completedEvents s ! i)"
    by (auto simp: step_def split: if_splits)
  show ?thesis
    unfolding s' using i
    by (simp add: on_completed_def Let_def decr_def findUnique_def repository_update_def
        sendProcessingUpdate_def counter_def)
qed

lemma step_Fail_summary:
  assumes st: "step e s (Fail i) = Some s'"
  shows "queue s' = queue s \<and> directories s' = directories s \<and> files s' = files s \<and>
    completedEvents s' = completedEvents s \<and> redis s' = redis s \<and>
    repositories s' = repositories s"
  using st by (auto simp: step_def on_failed_def split: if_splits)

section \<open>The jobs of a run do not depend on the order\<close>

lemma next_generation_add:
  "next_generation e (A + B) = next_generation e A + next_generation e B"
  by (simp add: next_generation_def)

lemma next_generation_single: "next_generation e {#j#} = mset (job_children e j)"
  by (simp add: next_generation_def)

lemma next_generation_empty: "next_generation e {#} = {#}"
  by (simp add: next_generation_def)

lemma generations_add:
  "generations e n (A + B) = generations e n A + generations e n B"
  by (induction n arbitrary: A B) (simp_all add: next_generation_add)

lemma generations_empty: "generations e n {#} = {#}"
  by (induction n) (simp_all add: next_generation_empty)

lemma generations_Suc: "generations e n A \<subseteq># generations e (Suc n) A"
proof (induction n arbitrary: A)
  case 0
  show ?case by simp
next
  case (Suc n)
  have "generations e (Suc n) A = A + generations e n (next_generation e A)" by simp
  also have "\<dots> \<subseteq># A + generations e (Suc n) (next_generation e A)"
    using Suc.IH [of "next_generation e A"] by (simp only: mset_subset_eq_mono_add_left_cancel)
  finally show ?case by simp
qed

lemma mset_remove_nth:
  "i < length xs \<Longrightarrow> mset xs = add_mset (xs ! i) (mset (remove_nth i xs))"
proof -
  assume i: "i < length xs"
  have "xs = take i xs @ xs ! i # drop (Suc i) xs" using i by (simp add: id_take_nth_drop)
  then have "mset xs = mset (take i xs @ xs ! i # drop (Suc i) xs)" by simp
  then show ?thesis by (simp add: remove_nth_def)
qed

lemma processed_Cons:
  "step e s a = Some s1 \<Longrightarrow>
   processed e s (a # as) =
     (case a of Process i \<Rightarrow> [queue s ! i] | _ \<Rightarrow> []) @ processed e s1 as"
  by simp

lemma processed_within_generations:
  "exec e s acts = Some s' \<Longrightarrow>
   mset (processed e s acts) + generations e n (mset (queue s')) \<subseteq>#
     generations e (n + length (processed e s acts)) (mset (queue s))"
proof (induction acts arbitrary: s)
  case Nil
  then show ?case by simp
next
  case (Cons a as)
  from Cons.prems obtain s1 where st: "step e s a = Some s1" and ex: "exec e s1 as = Some s'"
    by (auto split: option.splits)
  let ?P1 = "processed e s1 as"
  let ?m = "n + length ?P1"
  note IH = Cons.IH [OF ex]
  show ?case
  proof (cases a)
    case (Process i)
    let ?j = "queue s ! i"
    let ?R = "mset (remove_nth i (queue s))"
    let ?C = "mset (job_children e ?j)"
    note su = step_Process_summary [OF st [unfolded Process]]
    have q: "mset (queue s) = add_mset ?j ?R" using su mset_remove_nth by blast
    have q1: "mset (queue s1) = ?R + ?C" using su by simp
    have P: "processed e s (a # as) = ?j # ?P1" using st Process by simp
    have ng: "next_generation e (add_mset ?j ?R) = ?C + next_generation e ?R"
      using next_generation_add [of e "{#?j#}" ?R] by (simp add: next_generation_single)
    have rhs: "generations e (Suc ?m) (add_mset ?j ?R) =
        add_mset ?j (?R + generations e ?m (next_generation e ?R) + generations e ?m ?C)"
      by (simp add: ng generations_add)
    have "generations e ?m ?R \<subseteq># ?R + generations e ?m (next_generation e ?R)"
      using generations_Suc [of e ?m ?R] by simp
    then have "generations e ?m ?R + generations e ?m ?C \<subseteq>#
        ?R + generations e ?m (next_generation e ?R) + generations e ?m ?C"
      by (simp only: mset_subset_eq_mono_add_right_cancel)
    then have "add_mset ?j (generations e ?m (mset (queue s1))) \<subseteq>#
        generations e (Suc ?m) (mset (queue s))"
      unfolding q q1 rhs generations_add by (simp only: mset_subset_eq_add_mset_cancel)
    moreover have "add_mset ?j (mset ?P1 + generations e n (mset (queue s'))) \<subseteq>#
        add_mset ?j (generations e ?m (mset (queue s1)))"
      using IH by simp
    ultimately have "add_mset ?j (mset ?P1 + generations e n (mset (queue s'))) \<subseteq>#
        generations e (Suc ?m) (mset (queue s))"
      by (rule subset_mset.order_trans [rotated])
    then show ?thesis unfolding P by simp
  next
    case (Complete i)
    have "queue s1 = queue s" using step_Complete_summary [OF st [unfolded Complete]] by simp
    then show ?thesis using IH st Complete by simp
  next
    case (Fail i)
    have "queue s1 = queue s" using step_Fail_summary [OF st [unfolded Fail]] by simp
    then show ?thesis using IH st Fail by simp
  qed
qed

lemma generations_single:
  "generations e n {#j#} \<subseteq># add_mset j (generations e n (mset (job_children e j)))"
proof (cases n)
  case 0
  then show ?thesis by simp
next
  case (Suc m)
  have "generations e m (mset (job_children e j)) \<subseteq>#
      generations e (Suc m) (mset (job_children e j))"
    by (rule generations_Suc)
  then show ?thesis unfolding Suc by (simp add: next_generation_single)
qed

lemma generations_within_processed:
  "exec e s acts = Some s' \<Longrightarrow>
   generations e n (mset (queue s)) \<subseteq>#
     mset (processed e s acts) + generations e n (mset (queue s'))"
proof (induction acts arbitrary: s)
  case Nil
  then show ?case by simp
next
  case (Cons a as)
  from Cons.prems obtain s1 where st: "step e s a = Some s1" and ex: "exec e s1 as = Some s'"
    by (auto split: option.splits)
  let ?P1 = "processed e s1 as"
  note IH = Cons.IH [OF ex]
  show ?case
  proof (cases a)
    case (Process i)
    let ?j = "queue s ! i"
    let ?R = "mset (remove_nth i (queue s))"
    let ?C = "mset (job_children e ?j)"
    note su = step_Process_summary [OF st [unfolded Process]]
    have q: "mset (queue s) = add_mset ?j ?R" using su mset_remove_nth by blast
    have q1: "mset (queue s1) = ?R + ?C" using su by simp
    have P: "processed e s (a # as) = ?j # ?P1" using st Process by simp
    have "generations e n (mset (queue s)) = generations e n {#?j#} + generations e n ?R"
      unfolding q using generations_add [of e n "{#?j#}" ?R] by simp
    also have "\<dots> \<subseteq># add_mset ?j (generations e n ?C) + generations e n ?R"
      using generations_single [of e n ?j] by (simp only: mset_subset_eq_mono_add_right_cancel)
    also have "\<dots> = add_mset ?j (generations e n (mset (queue s1)))"
      unfolding q1 by (simp add: generations_add)
    also have "\<dots> \<subseteq># add_mset ?j (mset ?P1 + generations e n (mset (queue s')))"
      using IH by simp
    finally show ?thesis unfolding P by simp
  next
    case (Complete i)
    have "queue s1 = queue s" using step_Complete_summary [OF st [unfolded Complete]] by simp
    then show ?thesis using IH st Complete by simp
  next
    case (Fail i)
    have "queue s1 = queue s" using step_Fail_summary [OF st [unfolded Fail]] by simp
    then show ?thesis using IH st Fail by simp
  qed
qed

lemma processed_subset:
  assumes "exec e s acts1 = Some s1" and "queue s1 = []"
    and "exec e s acts2 = Some s2" and "queue s2 = []"
  shows "mset (processed e s acts1) \<subseteq># mset (processed e s acts2)"
proof -
  have "mset (processed e s acts1) \<subseteq>#
      generations e (length (processed e s acts1)) (mset (queue s))"
    using processed_within_generations [OF assms(1), of 0] assms(2) by simp
  also have "\<dots> \<subseteq># mset (processed e s acts2)"
    using generations_within_processed [OF assms(3), of "length (processed e s acts1)"] assms(4)
    by (simp add: generations_empty)
  finally show ?thesis .
qed

lemma processed_unique:
  assumes "exec e s acts1 = Some s1" and "queue s1 = []"
    and "exec e s acts2 = Some s2" and "queue s2 = []"
  shows "mset (processed e s acts1) = mset (processed e s acts2)"
  using processed_subset [OF assms] processed_subset [OF assms(3,4,1,2)]
  by (rule subset_mset.order_antisym)

section \<open>A terminal status is final\<close>

lemma job_children_run:
  "c \<in> set (job_children e j) \<Longrightarrow> job_repositoryId c = job_repositoryId j"
  unfolding job_children_def job_events_def child_events_def
  using child_events_balance(2) [of c e j] by (auto split: if_splits)

lemma jobs_of_zero: "jobs_of r js = 0 \<longleftrightarrow> (\<forall>j \<in> set js. job_repositoryId j \<noteq> r)"
  by (simp add: jobs_of_def filter_empty_conv)

lemma jobs_of_remove_other:
  "i < length js \<Longrightarrow> job_repositoryId (js ! i) \<noteq> r \<Longrightarrow>
   jobs_of r (remove_nth i js) = jobs_of r js"
  using jobs_of_remove_nth [of i js r] by simp

lemma step_idle:
  assumes st: "step e s a = Some s'" and idle: "outstanding r s = 0"
  shows "repositories s' r = repositories s r \<and> outstanding r s' = 0"
proof -
  have q0: "jobs_of r (queue s) = 0" and c0: "jobs_of r (completedEvents s) = 0"
    using idle by (simp_all add: outstanding_def)
  show ?thesis
  proof (cases a)
    case (Process i)
    let ?j = "queue s ! i"
    note su = step_Process_summary [OF st [unfolded Process]]
    have i: "i < length (queue s)" using su by simp
    then have other: "job_repositoryId ?j \<noteq> r" using q0 unfolding jobs_of_zero by simp
    have ch: "jobs_of r (job_children e ?j) = 0"
      unfolding jobs_of_zero using job_children_run [of _ e ?j] other by auto
    have "jobs_of r (queue s') = 0"
      using su ch jobs_of_remove_other [OF i other] q0 by simp
    moreover have "jobs_of r (completedEvents s') = 0"
      using su c0 other by (simp add: jobs_of_def)
    moreover have "repositories s' r = repositories s r" using su other by simp
    ultimately show ?thesis by (simp add: outstanding_def)
  next
    case (Complete i)
    let ?j = "completedEvents s ! i"
    note su = step_Complete_summary [OF st [unfolded Complete]]
    have i: "i < length (completedEvents s)" using su by simp
    then have other: "job_repositoryId ?j \<noteq> r" using c0 unfolding jobs_of_zero by simp
    have "jobs_of r (completedEvents s') = 0"
      using su jobs_of_remove_other [OF i other] c0 by simp
    moreover have "jobs_of r (queue s') = 0" using su q0 by simp
    moreover have "repositories s' r = repositories s r" using su other by simp
    ultimately show ?thesis by (simp add: outstanding_def)
  next
    case (Fail i)
    note su = step_Fail_summary [OF st [unfolded Fail]]
    then show ?thesis using idle by (simp add: outstanding_def)
  qed
qed

lemma step_settled:
  assumes st: "step e s a = Some s'"
    and cov: "int (outstanding r s) \<le> counter s (pending_jobs_key r)"
    and inv: "repositories s r = Some SUCCESS \<longrightarrow> outstanding r s = 0"
  shows "repositories s' r = Some SUCCESS \<longrightarrow> outstanding r s' = 0"
proof
  assume new: "repositories s' r = Some SUCCESS"
  show "outstanding r s' = 0"
  proof (cases "repositories s r = Some SUCCESS")
    case True
    then show ?thesis using step_idle [OF st] inv by simp
  next
    case False
    from step_success [OF st new False] have "counter s' (pending_jobs_key r) = 0" by simp
    then show ?thesis using step_covers [OF st cov] by simp
  qed
qed

lemma step_terminal:
  assumes st: "step e s a = Some s'"
    and inv: "repositories s r = Some SUCCESS \<longrightarrow> outstanding r s = 0"
    and fin: "repositories s r = Some SUCCESS \<or> repositories s r = Some FAILED"
  shows "repositories s' r = repositories s r"
  using fin
proof
  assume "repositories s r = Some SUCCESS"
  then show ?thesis using step_idle [OF st] inv by simp
next
  assume "repositories s r = Some FAILED"
  then show ?thesis using step_status [OF st, of r] by auto
qed

lemma exec_settled:
  "exec e s acts = Some s' \<Longrightarrow>
   int (outstanding r s) \<le> counter s (pending_jobs_key r) \<Longrightarrow>
   (repositories s r = Some SUCCESS \<longrightarrow> outstanding r s = 0) \<Longrightarrow>
   (repositories s' r = Some SUCCESS \<longrightarrow> outstanding r s' = 0)"
proof (induction acts arbitrary: s)
  case Nil
  then show ?case by simp
next
  case (Cons a acts)
  from Cons.prems(1) obtain s1 where a: "step e s a = Some s1"
    and rest: "exec e s1 acts = Some s'"
    by (auto split: option.splits)
  from Cons.IH [OF rest step_covers [OF a Cons.prems(2)] step_settled [OF a Cons.prems(2,3)]]
  show ?case .
qed

lemma exec_terminal:
  "exec e s acts = Some s' \<Longrightarrow>
   int (outstanding r s) \<le> counter s (pending_jobs_key r) \<Longrightarrow>
   (repositories s r = Some SUCCESS \<longrightarrow> outstanding r s = 0) \<Longrightarrow>
   repositories s r = Some SUCCESS \<or> repositories s r = Some FAILED \<Longrightarrow>
   repositories s' r = repositories s r"
proof (induction acts arbitrary: s)
  case Nil
  then show ?case by simp
next
  case (Cons a acts)
  from Cons.prems(1) obtain s1 where a: "step e s a = Some s1"
    and rest: "exec e s1 acts = Some s'"
    by (auto split: option.splits)
  have same: "repositories s1 r = repositories s r"
    using step_terminal [OF a Cons.prems(3,4)] .
  from Cons.IH [OF rest step_covers [OF a Cons.prems(2)] step_settled [OF a Cons.prems(2,3)]]
    same Cons.prems(4)
  show ?case by simp
qed

lemma exec_status_known:
  "exec e s acts = Some s' \<Longrightarrow>
   repositories s r = Some PROCESSING \<or> repositories s r = Some SUCCESS \<or>
     repositories s r = Some FAILED \<Longrightarrow>
   repositories s' r = Some PROCESSING \<or> repositories s' r = Some SUCCESS \<or>
     repositories s' r = Some FAILED"
proof (induction acts arbitrary: s)
  case Nil
  then show ?case by simp
next
  case (Cons a acts)
  from Cons.prems(1) obtain s1 where a: "step e s a = Some s1"
    and rest: "exec e s1 acts = Some s'"
    by (auto split: option.splits)
  from step_status [OF a, of r] Cons.prems(2)
  have "repositories s1 r = Some PROCESSING \<or> repositories s1 r = Some SUCCESS \<or>
     repositories s1 r = Some FAILED" by auto
  from Cons.IH [OF rest this] show ?case .
qed

text \<open>
  C7. Take a run whose status is \<open>PROCESSING\<close> and whose counter covers its waiting jobs,
  as the initiator leaves it, and any state \<open>s\<close> the queue reaches from there. The status
  in \<open>s\<close> is \<open>PROCESSING\<close>, \<open>SUCCESS\<close> or \<open>FAILED\<close>. Every step that changes it, the
  processor with its failure handling and the handler of \<open>completed\<close> included, starts
  from \<open>PROCESSING\<close>: the handler of \<open>completed\<close> moves it to \<open>SUCCESS\<close>, the processor
  to \<open>FAILED\<close>. Once the status is \<open>SUCCESS\<close> or \<open>FAILED\<close>, no step and no sequence of
  steps changes it again.
\<close>

theorem status_transitions:
  assumes cover: "int (outstanding r s0) \<le> counter s0 (pending_jobs_key r)"
    and start: "repositories s0 r = Some PROCESSING"
    and reach: "exec e s0 acts = Some s"
  shows
  "(repositories s r = Some PROCESSING \<or> repositories s r = Some SUCCESS \<or>
      repositories s r = Some FAILED) \<and>
   (\<forall>a s'. step e s a = Some s' \<longrightarrow>
      (repositories s r = Some SUCCESS \<or> repositories s r = Some FAILED \<longrightarrow>
         repositories s' r = repositories s r) \<and>
      (repositories s' r \<noteq> repositories s r \<longrightarrow>
         repositories s r = Some PROCESSING \<and>
         ((\<exists>i. a = Complete i) \<and> repositories s' r = Some SUCCESS \<or>
          (\<exists>i. a = Process i) \<and> repositories s' r = Some FAILED))) \<and>
   (\<forall>acts' s'. exec e s acts' = Some s' \<and>
        (repositories s r = Some SUCCESS \<or> repositories s r = Some FAILED) \<longrightarrow>
      repositories s' r = repositories s r)"
proof -
  have cov: "int (outstanding r s) \<le> counter s (pending_jobs_key r)"
    using exec_covers [OF reach cover] .
  have inv: "repositories s r = Some SUCCESS \<longrightarrow> outstanding r s = 0"
    using exec_settled [OF reach cover] start by simp
  have known: "repositories s r = Some PROCESSING \<or> repositories s r = Some SUCCESS \<or>
      repositories s r = Some FAILED"
    using exec_status_known [OF reach] start by simp
  have step: "(repositories s r = Some SUCCESS \<or> repositories s r = Some FAILED \<longrightarrow>
         repositories s' r = repositories s r) \<and>
      (repositories s' r \<noteq> repositories s r \<longrightarrow>
         repositories s r = Some PROCESSING \<and>
         ((\<exists>i. a = Complete i) \<and> repositories s' r = Some SUCCESS \<or>
          (\<exists>i. a = Process i) \<and> repositories s' r = Some FAILED))"
    if st: "step e s a = Some s'" for a s'
  proof (intro conjI impI)
    assume "repositories s r = Some SUCCESS \<or> repositories s r = Some FAILED"
    then show "repositories s' r = repositories s r" using step_terminal [OF st inv] by simp
  next
    assume ch: "repositories s' r \<noteq> repositories s r"
    then have nt: "\<not> (repositories s r = Some SUCCESS \<or> repositories s r = Some FAILED)"
      using step_terminal [OF st inv] by blast
    then show "repositories s r = Some PROCESSING" using known by blast
    show "(\<exists>i. a = Complete i) \<and> repositories s' r = Some SUCCESS \<or>
          (\<exists>i. a = Process i) \<and> repositories s' r = Some FAILED"
      using step_status [OF st, of r] ch by blast
  qed
  have run: "repositories s' r = repositories s r"
    if "exec e s acts' = Some s' \<and>
        (repositories s r = Some SUCCESS \<or> repositories s r = Some FAILED)" for acts' s'
    using exec_terminal [OF _ cov inv] that by blast
  show ?thesis using known step run by blast
qed


theorem status_transitions_witness:
  "(\<exists>s s'. exec demo_env
        (demo_init\<lparr>queue := [demo_job ''docs'', (demo_job ''missing'')\<lparr>job_repositoryId := ''R2''\<rparr>]\<rparr>)
        [Process 0, Complete 0] = Some s \<and>
      repositories s ''R1'' = Some SUCCESS \<and>
      step demo_env s (Process 0) = Some s' \<and> repositories s' ''R1'' = Some SUCCESS) \<and>
   (\<exists>s s'. exec demo_env (demo_init\<lparr>queue := [demo_job ''missing'']\<rparr>) [Process 0] = Some s \<and>
      repositories s ''R1'' = Some FAILED \<and>
      step demo_env s (Complete 0) = Some s' \<and> repositories s' ''R1'' = Some FAILED)"
proof (intro conjI)
  let ?other = "(demo_job ''missing'')\<lparr>job_repositoryId := ''R2''\<rparr>"
  let ?init = "demo_init\<lparr>queue := [demo_job ''docs'', ?other]\<rparr>"
  let ?acts = "[Process 0, Complete 0]"
  let ?mid = "demo_init\<lparr>repositories := [''R1'' \<mapsto> SUCCESS], queue := [?other],
      redis := [pending_jobs_key ''R1'' \<mapsto> 0],
      txLog := [DirectoryTx [] True],
      updates := [(''R1'', PROCESSING, processing_message ''docs''),
                  (''R1'', PROCESSING, start_message 0 ''docs''),
                  (''R1'', SUCCESS, finish_message 0 ''docs''),
                  (''R1'', PROCESSING, finished_message ''docs''),
                  (''R1'', SUCCESS, completion_message)]\<rparr>"
  have run: "exec demo_env ?init ?acts = Some ?mid"
    by (simp add: model_simps demo_simps)
  have cover: "int (outstanding ''R1'' ?init) \<le> counter ?init (pending_jobs_key ''R1'')"
    by (simp add: outstanding_def jobs_of_def demo_simps counter_def)
  have start: "repositories ?init ''R1'' = Some PROCESSING" by (simp add: demo_simps)
  obtain s' where st: "step demo_env ?mid (Process 0) = Some s'"
    by (simp add: model_simps demo_simps)
  note t = status_transitions [OF cover start run]
  have "repositories ?mid ''R1'' = Some SUCCESS" by simp
  moreover from this have "repositories s' ''R1'' = Some SUCCESS" using t st by simp
  ultimately show "\<exists>s s'. exec demo_env ?init ?acts = Some s \<and>
      repositories s ''R1'' = Some SUCCESS \<and>
      step demo_env s (Process 0) = Some s' \<and> repositories s' ''R1'' = Some SUCCESS"
    using run st by blast
next
  let ?init = "demo_init\<lparr>queue := [demo_job ''missing'']\<rparr>"
  let ?mid = "demo_init\<lparr>repositories := [''R1'' \<mapsto> FAILED], queue := [],
       completedEvents := [demo_job ''missing''],
       updates := [(''R1'', FAILED, failed_message ''missing'')]\<rparr>"
  have run: "exec demo_env ?init [Process 0] = Some ?mid"
    by (simp add: model_simps demo_simps)
  have cover: "int (outstanding ''R1'' ?init) \<le> counter ?init (pending_jobs_key ''R1'')"
    by (simp add: outstanding_def jobs_of_def demo_simps counter_def)
  have start: "repositories ?init ''R1'' = Some PROCESSING" by (simp add: demo_simps)
  obtain s' where st: "step demo_env ?mid (Complete 0) = Some s'"
    by (simp add: step_def)
  note t = status_transitions [OF cover start run]
  have "repositories ?mid ''R1'' = Some FAILED" by simp
  moreover from this have "repositories s' ''R1'' = Some FAILED" using t st by simp
  ultimately show "\<exists>s s'. exec demo_env ?init [Process 0] = Some s \<and>
      repositories s ''R1'' = Some FAILED \<and>
      step demo_env s (Complete 0) = Some s' \<and> repositories s' ''R1'' = Some FAILED"
    using run st by blast
qed

section \<open>The rows a job adds, as an observer sees them\<close>

lemma find_append_closed:
  "i \<in> f ` set xs \<Longrightarrow> find (\<lambda>d. f d = i) (xs @ ys) = find (\<lambda>d. f d = i) xs"
  by (induction xs) auto

lemma find_distinct:
  "distinct (map f xs) \<Longrightarrow> x \<in> set xs \<Longrightarrow> find (\<lambda>y. f y = f x) xs = Some x"
  by (induction xs) (auto simp: image_iff)

lemma resolve_append:
  assumes "directories s' = directories s @ rows"
    and "\<forall>i. ref = Some i \<longrightarrow> i \<in> dir_id ` set (directories s)"
  shows "resolve s' ref = resolve s ref"
proof (cases ref)
  case None
  then show ?thesis by (simp add: resolve_def)
next
  case (Some i)
  then have "i \<in> dir_id ` set (directories s)" using assms(2) by simp
  then show ?thesis
    unfolding resolve_def Some assms(1) by (simp add: find_append_closed)
qed

lemma set_all_snoc: "set_all m (rows @ [d]) = (set_all m rows)(dir_path d \<mapsto> d)"
  by (simp add: set_all_def)

lemma set_all_absent:
  "p \<notin> dir_path ` set rows \<Longrightarrow> set_all Map.empty rows p = None"
  by (induction rows rule: rev_induct) (simp_all add: set_all_def)

lemma set_all_present:
  "p \<in> dir_path ` set rows \<Longrightarrow>
   \<exists>d \<in> set rows. dir_path d = p \<and> set_all Map.empty rows p = Some d"
proof (induction rows rule: rev_induct)
  case Nil
  then show ?case by simp
next
  case (snoc d rows)
  show ?case
  proof (cases "dir_path d = p")
    case True
    then show ?thesis by (simp add: set_all_snoc)
  next
    case False
    then have "p \<in> dir_path ` set rows" using snoc.prems by auto
    from snoc.IH [OF this] show ?thesis using False by (auto simp: set_all_snoc)
  qed
qed

lemma length_created_rows [simp]: "length (created_rows e n ds) = length ds"
  by (simp add: created_rows_def)

lemma map_comp_fst_zip:
  "length xs = length ys \<Longrightarrow> map (f \<circ> fst) (zip xs ys) = map f xs"
  by (induction xs ys rule: list_induct2) simp_all

lemma map_comp_snd_zip:
  "length xs = length ys \<Longrightarrow> map (f \<circ> snd) (zip xs ys) = map f ys"
  by (induction xs ys rule: list_induct2) simp_all

lemma created_rows_ids:
  "map dir_id (created_rows e n ds) = map (new_id e) [n ..< n + length ds]"
proof -
  have "map dir_id (created_rows e n ds) =
      map (new_id e \<circ> fst) (zip [n ..< n + length ds] ds)"
    by (simp add: created_rows_def case_prod_unfold comp_def)
  also have "\<dots> = map (new_id e) [n ..< n + length ds]"
    by (rule map_comp_fst_zip) simp
  finally show ?thesis .
qed

lemma created_rows_data:
  "map (\<lambda>d. (dir_path d, dir_repositoryId d, dir_parentId d)) (created_rows e n ds) =
     map (\<lambda>d. (dir_path d, dir_repositoryId d, dir_parentId d)) ds"
proof -
  have "map (\<lambda>d. (dir_path d, dir_repositoryId d, dir_parentId d)) (created_rows e n ds) =
      map ((\<lambda>d. (dir_path d, dir_repositoryId d, dir_parentId d)) \<circ> snd)
        (zip [n ..< n + length ds] ds)"
    by (simp add: created_rows_def case_prod_unfold comp_def)
  also have "\<dots> = map (\<lambda>d. (dir_path d, dir_repositoryId d, dir_parentId d)) ds"
    by (rule map_comp_snd_zip) simp
  finally show ?thesis .
qed

lemma created_rows_paths:
  "map dir_path (created_rows e n (directoryData m rid dirs)) = map gc_path dirs"
proof -
  have "map dir_path (created_rows e n (directoryData m rid dirs)) =
      map fst (map (\<lambda>d. (dir_path d, dir_repositoryId d, dir_parentId d))
        (created_rows e n (directoryData m rid dirs)))"
    by (simp add: comp_def)
  also have "\<dots> = map gc_path dirs"
    unfolding created_rows_data by (simp add: directoryData_def comp_def Let_def)
  finally show ?thesis .
qed

lemma created_rows_nodes:
  "map (\<lambda>d. (dir_path d, dir_repositoryId d, dir_parentId d))
     (created_rows e n (directoryData Map.empty rid dirs)) =
   map (\<lambda>g. (gc_path g, rid, None)) dirs"
  unfolding created_rows_data by (simp add: directoryData_def comp_def Let_def id_or_null_def)

lemma store_ok_distinct:
  "inj (new_id e) \<Longrightarrow> store_ok e s \<Longrightarrow> distinct (map dir_id (directories s))"
  unfolding store_ok_def by (simp add: distinct_map inj_on_def inj_def)

lemma store_ok_append:
  assumes "store_ok e s" and "directories s' = directories s @ created_rows e (length (directories s)) ds"
  shows "store_ok e s'"
proof -
  let ?n = "length (directories s)"
  have "[0 ..< ?n + length ds] = [0 ..< ?n] @ [?n ..< ?n + length ds]"
    using upt_add_eq_append [of 0 ?n "length ds"] by simp
  then show ?thesis
    using assms by (simp add: store_ok_def created_rows_ids)
qed

lemma resolve_created:
  assumes inj: "inj (new_id e)" and ne: "\<forall>k. new_id e k \<noteq> []"
    and ok: "store_ok e s"
    and rows: "rows = created_rows e (length (directories s)) (directoryData Map.empty rid dirs)"
    and d': "directories s' = directories s @ rows"
  shows "resolve s' (lookup_directoryId (set_all Map.empty rows) fs) =
     (if current_dir_path fs \<in> gc_path ` set dirs then Row (current_dir_path fs)
      else NoReference)"
proof -
  let ?p = "current_dir_path fs"
  have paths: "dir_path ` set rows = gc_path ` set dirs"
    using created_rows_paths [of e "length (directories s)" Map.empty rid dirs]
    unfolding rows [symmetric] by (metis set_map)
  show ?thesis
  proof (cases "?p \<in> gc_path ` set dirs")
    case False
    then have "set_all Map.empty rows ?p = None" using paths set_all_absent by blast
    then show ?thesis using False
      by (simp add: lookup_directoryId_def Let_def id_or_null_def resolve_def)
  next
    case True
    then obtain d where d: "d \<in> set rows" "dir_path d = ?p"
      and sa: "set_all Map.empty rows ?p = Some d"
      using paths set_all_present [of ?p rows] by blast
    have ok': "store_ok e s'" using store_ok_append [OF ok d' [unfolded rows]] .
    have "dir_id d \<in> set (map dir_id (directories s'))" using d d' by simp
    then have "dir_id d \<in> new_id e ` set [0 ..< length (directories s')]"
      using ok' unfolding store_ok_def by simp
    then obtain k where "dir_id d = new_id e k" by auto
    then have idne: "dir_id d \<noteq> []" using ne by simp
    have "find (\<lambda>y. dir_id y = dir_id d) (directories s') = Some d"
      using find_distinct [OF store_ok_distinct [OF inj ok'], of d] d d' by simp
    then show ?thesis using True sa idne d
      by (simp add: lookup_directoryId_def Let_def id_or_null_def resolve_def)
  qed
qed

lemma id_or_null_Some:
  "id_or_null r = Some i \<Longrightarrow> \<exists>d. r = Some d \<and> dir_id d = i"
  by (cases r) (simp_all add: id_or_null_def split: if_splits)

lemma lookup_directoryId_member:
  assumes a: "lookup_directoryId (set_all Map.empty rows) fs = Some i"
  shows "i \<in> dir_id ` set rows"
proof -
  let ?p = "current_dir_path fs"
  from a have "id_or_null (set_all Map.empty rows ?p) = Some i"
    by (simp add: lookup_directoryId_def)
  from id_or_null_Some [OF this] obtain d where
    d: "set_all Map.empty rows ?p = Some d" "dir_id d = i" by blast
  have "?p \<in> dir_path ` set rows"
  proof (rule ccontr)
    assume "?p \<notin> dir_path ` set rows"
    from set_all_absent [OF this] show False using d by simp
  qed
  from set_all_present [OF this] obtain d' where "d' \<in> set rows"
    "set_all Map.empty rows ?p = Some d'" by blast
  then have "d \<in> set rows" using d by simp
  then show ?thesis using d(2) by blast
qed


lemma nodes_cong:
  assumes "directories s' = directories s" and "files s' = files s"
  shows "directory_nodes s' = directory_nodes s \<and> file_nodes s' = file_nodes s \<and>
    store_ok e s' = store_ok e s \<and> refs_closed s' = refs_closed s"
proof -
  have "resolve s' = resolve s" unfolding resolve_def assms(1) ..
  then show ?thesis
    using assms by (simp add: directory_nodes_def file_nodes_def store_ok_def refs_closed_def)
qed

lemma job_file_rows_shape:
  "\<exists>cs. job_file_rows e j n =
     map (file_create (job_repositoryId j)
            (lookup_directoryId (set_all Map.empty (job_directory_rows e j n))
               (files_of (job_items e j)))) cs"
proof (cases "tables_reached e j")
  case False
  then show ?thesis by (simp add: job_file_rows_def)
next
  case True
  show ?thesis
  proof (cases "fileBatches_loop (FILE_BATCH_SIZE e) (files_of (job_items e j)) 0 []")
    case None
    then show ?thesis using True by (simp add: job_file_rows_def)
  next
    case (Some bs)
    then show ?thesis using True by (simp add: job_file_rows_def) blast
  qed
qed

lemma step_Process_nodes:
  assumes inj: "inj (new_id e)" and ne: "\<forall>k. new_id e k \<noteq> []"
    and st: "step e s (Process i) = Some s'"
    and ok: "store_ok e s" and cl: "refs_closed s"
  shows "directory_nodes s' = directory_nodes s + job_directories e (queue s ! i) \<and>
    file_nodes s' = file_nodes s + job_files e (queue s ! i) \<and>
    store_ok e s' \<and> refs_closed s'"
proof -
  let ?j = "queue s ! i"
  let ?rid = "job_repositoryId ?j"
  let ?n = "length (directories s)"
  let ?items = "job_items e ?j"
  let ?rows = "job_directory_rows e ?j ?n"
  let ?frows = "job_file_rows e ?j ?n"
  let ?ds = "if tables_reached e ?j then directoryData Map.empty ?rid (dirs_of ?items) else []"
  let ?dnode = "\<lambda>s d. (dir_path d, dir_repositoryId d, resolve s (dir_parentId d))"
  let ?fnode = "\<lambda>s f. (file_path f, file_name f, file_content f, file_repositoryId f,
      resolve s (file_directoryId f))"
  note su = step_Process_summary [OF st]
  have d': "directories s' = directories s @ ?rows" and f': "files s' = files s @ ?frows"
    using su by simp_all
  have rows: "?rows = created_rows e ?n ?ds"
    by (simp add: job_directory_rows_def created_rows_def)
  have ok': "store_ok e s'" using store_ok_append [OF ok d' [unfolded rows]] .
  have old: "resolve s' ref = resolve s ref"
    if "\<forall>i. ref = Some i \<longrightarrow> i \<in> dir_id ` set (directories s)" for ref
    using resolve_append [OF d' that] .
  have oldd: "map (?dnode s') (directories s) = map (?dnode s) (directories s)"
  proof (rule map_cong [OF refl])
    fix d assume "d \<in> set (directories s)"
    then have "\<forall>i. dir_parentId d = Some i \<longrightarrow> i \<in> dir_id ` set (directories s)"
      using cl unfolding refs_closed_def by blast
    from old [OF this] show "?dnode s' d = ?dnode s d" by simp
  qed
  have oldf: "map (?fnode s') (files s) = map (?fnode s) (files s)"
  proof (rule map_cong [OF refl])
    fix f assume "f \<in> set (files s)"
    then have "\<forall>i. file_directoryId f = Some i \<longrightarrow> i \<in> dir_id ` set (directories s)"
      using cl unfolding refs_closed_def by blast
    from old [OF this] show "?fnode s' f = ?fnode s f" by simp
  qed
  have par: "dir_parentId d = None" if "d \<in> set ?rows" for d
  proof -
    from that obtain d0 where "d0 \<in> set ?ds" "dir_parentId d = dir_parentId d0"
      unfolding rows using created_rows_parent by blast
    then show ?thesis using directoryData_parent [of d0 ?rid "dirs_of ?items"]
      by (auto split: if_splits)
  qed
  have newd: "mset (map (?dnode s') ?rows) = job_directories e ?j"
  proof (cases "tables_reached e ?j")
    case False
    then show ?thesis by (simp add: job_directory_rows_def job_directories_def)
  next
    case True
    let ?cr = "created_rows e ?n (directoryData Map.empty ?rid (dirs_of ?items))"
    have "map (?dnode s') ?cr =
        map (\<lambda>(p, r, q). (p, r, resolve s' q))
          (map (\<lambda>d. (dir_path d, dir_repositoryId d, dir_parentId d)) ?cr)"
      by (simp add: comp_def)
    also have "\<dots> = map (\<lambda>g. (gc_path g, ?rid, NoReference)) (dirs_of ?items)"
      unfolding created_rows_nodes by (simp add: comp_def resolve_def)
    finally show ?thesis using True by (simp add: job_directory_rows_def job_directories_def)
  qed
  have newf: "mset (map (?fnode s') ?frows) = job_files e ?j"
  proof (cases "tables_reached e ?j")
    case False
    then show ?thesis by (simp add: job_file_rows_def job_files_def)
  next
    case True
    let ?cr = "created_rows e ?n (directoryData Map.empty ?rid (dirs_of ?items))"
    have cr: "?rows = ?cr" using True by (simp add: job_directory_rows_def)
    have res: "resolve s' (lookup_directoryId (set_all Map.empty ?rows) (files_of ?items)) =
        files_reference ?items"
      unfolding files_reference_def
      using resolve_created [OF inj ne ok cr d', of "files_of ?items"] .
    show ?thesis
    proof (cases "fileBatches_loop (FILE_BATCH_SIZE e) (files_of ?items) 0 []")
      case None
      then show ?thesis using True by (simp add: job_file_rows_def job_files_def)
    next
      case (Some bs)
      show ?thesis
        using True Some res by (simp add: job_file_rows_def job_files_def comp_def file_create_def)
    qed
  qed
  have "directory_nodes s' =
      mset (map (?dnode s') (directories s)) + mset (map (?dnode s') ?rows)"
    unfolding directory_nodes_def d' by (simp only: map_append mset_append)
  then have dn: "directory_nodes s' = directory_nodes s + job_directories e ?j"
    by (simp only: oldd newd directory_nodes_def)
  have "file_nodes s' = mset (map (?fnode s') (files s)) + mset (map (?fnode s') ?frows)"
    unfolding file_nodes_def f' by (simp only: map_append mset_append)
  then have fn: "file_nodes s' = file_nodes s + job_files e ?j"
    by (simp only: oldf newf file_nodes_def)
  have cl': "refs_closed s'"
    unfolding refs_closed_def
  proof (intro conjI ballI allI impI)
    fix d i assume d: "d \<in> set (directories s')" and p: "dir_parentId d = Some i"
    then have "d \<in> set (directories s)" using par d' by auto
    then have "i \<in> dir_id ` set (directories s)" using cl p unfolding refs_closed_def by blast
    then show "i \<in> dir_id ` set (directories s')" using d' by auto
  next
    fix f i assume f: "f \<in> set (files s')" and p: "file_directoryId f = Some i"
    show "i \<in> dir_id ` set (directories s')"
    proof (cases "f \<in> set (files s)")
      case True
      then have "i \<in> dir_id ` set (directories s)" using cl p unfolding refs_closed_def by blast
      then show ?thesis using d' by auto
    next
      case False
      then have "f \<in> set ?frows" using f f' by simp
      then obtain g where "f = file_create ?rid
          (lookup_directoryId (set_all Map.empty ?rows) (files_of ?items)) g"
        using job_file_rows_shape [of e ?j ?n] by auto
      then have "file_directoryId f =
          lookup_directoryId (set_all Map.empty ?rows) (files_of ?items)"
        by (simp add: file_create_def)
      then have "i \<in> dir_id ` set ?rows" using p lookup_directoryId_member by simp
      then show ?thesis using d' by auto
    qed
  qed
  show ?thesis using dn fn ok' cl' by simp
qed

lemma exec_nodes:
  assumes inj: "inj (new_id e)" and ne: "\<forall>k. new_id e k \<noteq> []"
  shows "exec e s acts = Some s' \<Longrightarrow> store_ok e s \<Longrightarrow> refs_closed s \<Longrightarrow>
    directory_nodes s' =
      directory_nodes s + sum_list (map (job_directories e) (processed e s acts)) \<and>
    file_nodes s' = file_nodes s + sum_list (map (job_files e) (processed e s acts))"
proof (induction acts arbitrary: s)
  case Nil
  then show ?case by simp
next
  case (Cons a as)
  from Cons.prems(1) obtain s1 where st: "step e s a = Some s1"
    and ex: "exec e s1 as = Some s'"
    by (auto split: option.splits)
  show ?case
  proof (cases a)
    case (Process i)
    note n = step_Process_nodes [OF inj ne st [unfolded Process] Cons.prems(2,3)]
    from n have "store_ok e s1" "refs_closed s1" by simp_all
    note IH = Cons.IH [OF ex this]
    have P: "processed e s (a # as) = queue s ! i # processed e s1 as" using st Process by simp
    show ?thesis unfolding P using IH n by (simp add: ac_simps)
  next
    case (Complete i)
    note su = step_Complete_summary [OF st [unfolded Complete]]
    then have c: "directories s1 = directories s" "files s1 = files s" by simp_all
    note n = nodes_cong [OF c, of e]
    from n Cons.prems have "store_ok e s1" "refs_closed s1" by simp_all
    note IH = Cons.IH [OF ex this]
    have P: "processed e s (a # as) = processed e s1 as" using st Complete by simp
    show ?thesis unfolding P using IH n by simp
  next
    case (Fail i)
    note su = step_Fail_summary [OF st [unfolded Fail]]
    then have c: "directories s1 = directories s" "files s1 = files s" by simp_all
    note n = nodes_cong [OF c, of e]
    from n Cons.prems have "store_ok e s1" "refs_closed s1" by simp_all
    note IH = Cons.IH [OF ex this]
    have P: "processed e s (a # as) = processed e s1 as" using st Fail by simp
    show ?thesis unfolding P using IH n by simp
  qed
qed

section \<open>The final status does not depend on the order\<close>

lemma jobs_of_Cons:
  "jobs_of r (j # js) = (if job_repositoryId j = r then 1 else 0) + jobs_of r js"
  by (simp add: jobs_of_def)

lemma failing_Cons:
  "failing e r (j # js) \<longleftrightarrow>
     (job_repositoryId j = r \<and> stage_of e j \<noteq> Some Finished) \<or> failing e r js"
  by (simp add: failing_def)

lemma increments_Cons:
  "increments e r (j # js) =
     (if job_repositoryId j = r then int (job_increments e j) else 0) + increments e r js"
  by (simp add: increments_def)

lemma idle_jobs:
  assumes "jobs_of r js = 0"
  shows "\<not> failing e r js" and "increments e r js = 0"
proof -
  have f: "filter (\<lambda>j. job_repositoryId j = r) js = []"
    using assms by (simp add: jobs_of_def)
  show "\<not> failing e r js"
    using assms unfolding jobs_of_zero failing_def list_ex_iff by blast
  show "increments e r js = 0" by (simp add: increments_def f)
qed

lemma step_queue_idle:
  assumes st: "step e s a = Some s'" and q0: "jobs_of r (queue s) = 0"
  shows "jobs_of r (queue s') = 0 \<and> (\<forall>i. a = Process i \<longrightarrow> job_repositoryId (queue s ! i) \<noteq> r)"
proof (cases a)
  case (Process i)
  let ?j = "queue s ! i"
  note su = step_Process_summary [OF st [unfolded Process]]
  have i: "i < length (queue s)" using su by simp
  then have other: "job_repositoryId ?j \<noteq> r" using q0 unfolding jobs_of_zero by simp
  have ch: "jobs_of r (job_children e ?j) = 0"
    unfolding jobs_of_zero using job_children_run [of _ e ?j] other by auto
  have "jobs_of r (queue s') = 0"
    using su ch jobs_of_remove_other [OF i other] q0 by simp
  then show ?thesis using other Process by simp
next
  case (Complete i)
  then show ?thesis using step_Complete_summary [OF st [unfolded Complete]] q0 by simp
next
  case (Fail i)
  then show ?thesis using step_Fail_summary [OF st [unfolded Fail]] q0 by simp
qed

lemma processed_idle:
  "exec e s acts = Some s' \<Longrightarrow> jobs_of r (queue s) = 0 \<Longrightarrow>
   jobs_of r (processed e s acts) = 0"
proof (induction acts arbitrary: s)
  case Nil
  then show ?case by (simp add: jobs_of_def)
next
  case (Cons a as)
  from Cons.prems(1) obtain s1 where st: "step e s a = Some s1"
    and ex: "exec e s1 as = Some s'"
    by (auto split: option.splits)
  note q = step_queue_idle [OF st Cons.prems(2)]
  from Cons.IH [OF ex] q have IH: "jobs_of r (processed e s1 as) = 0" by simp
  show ?case
  proof (cases a)
    case (Process i)
    then show ?thesis using st IH q by (simp add: jobs_of_Cons)
  next
    case (Complete i)
    then show ?thesis using st IH by simp
  next
    case (Fail i)
    then show ?thesis using st IH by simp
  qed
qed

lemma final_status_cong:
  assumes "repositories s1 r = repositories s r"
    and "counter s1 (pending_jobs_key r) = counter s (pending_jobs_key r)"
    and "jobs_of r (completedEvents s1) = jobs_of r (completedEvents s)"
  shows "final_status e r s1 js = final_status e r s js"
  unfolding final_status_def assms ..

lemma final_status_other:
  assumes "job_repositoryId j \<noteq> r"
  shows "final_status e r s (j # js) = final_status e r s js"
proof -
  have a: "failing e r (j # js) = failing e r js" "jobs_of r (j # js) = jobs_of r js"
    "increments e r (j # js) = increments e r js"
    using assms by (simp_all add: failing_Cons jobs_of_Cons increments_Cons)
  show ?thesis unfolding final_status_def a ..
qed

lemma final_status_Process:
  assumes st: "step e s (Process i) = Some s1"
  shows "final_status e r s1 js = final_status e r s (queue s ! i # js)"
proof -
  let ?j = "queue s ! i"
  note su = step_Process_summary [OF st]
  show ?thesis
  proof (cases "job_repositoryId ?j = r")
    case False
    have "repositories s1 r = repositories s r" using su False by simp
    moreover have "counter s1 (pending_jobs_key r) = counter s (pending_jobs_key r)"
      using su False by simp
    moreover have "jobs_of r (completedEvents s1) = jobs_of r (completedEvents s)"
      using su False by (simp add: jobs_of_def)
    ultimately have "final_status e r s1 js = final_status e r s js"
      by (rule final_status_cong)
    then show ?thesis using final_status_other [OF False] by simp
  next
    case True
    show ?thesis
    proof (cases "repositories s r")
      case None
      then have "repositories s1 r = None" using su True by simp
      then show ?thesis using None by (simp add: final_status_def)
    next
      case (Some st)
      show ?thesis
      proof (cases "stage_of e ?j = Some Finished")
        case fin: True
        have "repositories s1 r = Some st" using su fin Some by simp
        moreover have "counter s1 (pending_jobs_key r) =
            counter s (pending_jobs_key r) + int (job_increments e ?j)"
          using su True by simp
        moreover have "jobs_of r (completedEvents s1) = jobs_of r (completedEvents s) + 1"
          using su fin True by (simp add: jobs_of_def)
        ultimately show ?thesis
          using True fin Some
          by (simp add: final_status_def failing_Cons jobs_of_Cons increments_Cons Let_def)
      next
        case nfin: False
        have "repositories s1 r = Some FAILED" using su nfin Some True by simp
        then show ?thesis
          using True nfin Some by (simp add: final_status_def failing_Cons Let_def)
      qed
    qed
  qed
qed

lemma final_status_Complete:
  assumes st: "step e s (Complete i) = Some s1"
    and cov: "int (outstanding r s) \<le> counter s (pending_jobs_key r)"
    and idle: "jobs_of r (queue s1) = 0 \<longrightarrow> jobs_of r js = 0"
  shows "final_status e r s1 js = final_status e r s js"
proof -
  let ?j = "completedEvents s ! i"
  note su = step_Complete_summary [OF st]
  have i: "i < length (completedEvents s)" using su by simp
  show ?thesis
  proof (cases "job_repositoryId ?j = r")
    case False
    have "repositories s1 r = repositories s r" using su False by simp
    moreover have "counter s1 (pending_jobs_key r) = counter s (pending_jobs_key r)"
      using su False by simp
    moreover have "jobs_of r (completedEvents s1) = jobs_of r (completedEvents s)"
      using su jobs_of_remove_other [OF i False] by simp
    ultimately show ?thesis by (rule final_status_cong)
  next
    case True
    have ce: "jobs_of r (completedEvents s) = jobs_of r (completedEvents s1) + 1"
      using su jobs_of_remove_nth [OF i, of r] True by simp
    have c1: "counter s1 (pending_jobs_key r) = counter s (pending_jobs_key r) - 1"
      using su True by simp
    show ?thesis
    proof (cases "repositories s r")
      case None
      then have "repositories s1 r = None" using su True by simp
      then show ?thesis using None by (simp add: final_status_def)
    next
      case (Some st)
      show ?thesis
      proof (cases "failing e r js")
        case True
        have "repositories s1 r \<noteq> None" using su Some by simp
        then show ?thesis using True Some by (auto simp: final_status_def)
      next
        case nf: False
        show ?thesis
        proof (cases "counter s (pending_jobs_key r) = 1 \<and> st = PROCESSING")
          case fire: True
          have r1: "repositories s1 r = Some SUCCESS" using su Some True fire by simp
          have "counter s1 (pending_jobs_key r) = 0" using c1 fire by simp
          then have "outstanding r s1 = 0" using step_covers [OF st cov] by simp
          then have q: "jobs_of r (queue s1) = 0" and c: "jobs_of r (completedEvents s1) = 0"
            by (simp_all add: outstanding_def)
          have js: "jobs_of r js = 0" using idle q by simp
          show ?thesis
            using r1 Some fire nf ce c js idle_jobs(2) [OF js, of e]
            by (simp add: final_status_def Let_def)
        next
          case quiet: False
          have r1: "repositories s1 r = Some st" using su Some True quiet by auto
          have differ: False
            if p: "st = PROCESSING" and z: "jobs_of r (completedEvents s1) + jobs_of r js = 0"
              and f: "counter s (pending_jobs_key r) + increments e r js -
                int (jobs_of r (completedEvents s) + jobs_of r js) = 0"
          proof -
            have js: "jobs_of r js = 0" using z by simp
            have "counter s (pending_jobs_key r) = 1"
              using f z ce idle_jobs(2) [OF js, of e] by simp
            then show False using quiet p by simp
          qed
          show ?thesis
            using r1 Some nf ce c1 differ
            by (auto simp: final_status_def Let_def)
        qed
      qed
    qed
  qed
qed

lemma final_status_Fail:
  assumes st: "step e s (Fail i) = Some s1"
  shows "final_status e r s1 js = final_status e r s js"
proof -
  note su = step_Fail_summary [OF st]
  have "counter s1 (pending_jobs_key r) = counter s (pending_jobs_key r)"
    using su counter_cong [of s1 s] by simp
  then show ?thesis using su by (intro final_status_cong) simp_all
qed

lemma exec_final_status:
  "exec e s acts = Some s' \<Longrightarrow> completedEvents s' = [] \<Longrightarrow>
   int (outstanding r s) \<le> counter s (pending_jobs_key r) \<Longrightarrow>
   repositories s' r = final_status e r s (processed e s acts)"
proof (induction acts arbitrary: s)
  case Nil
  then show ?case
    by (simp add: final_status_def failing_def jobs_of_def increments_def split: option.splits)
next
  case (Cons a as)
  from Cons.prems(1) obtain s1 where st: "step e s a = Some s1"
    and ex: "exec e s1 as = Some s'"
    by (auto split: option.splits)
  note IH = Cons.IH [OF ex Cons.prems(2) step_covers [OF st Cons.prems(3)]]
  show ?case
  proof (cases a)
    case (Process i)
    have "processed e s (a # as) = queue s ! i # processed e s1 as" using st Process by simp
    then show ?thesis using IH final_status_Process [OF st [unfolded Process]] by simp
  next
    case (Complete i)
    have P: "processed e s (a # as) = processed e s1 as" using st Complete by simp
    have "jobs_of r (queue s1) = 0 \<longrightarrow> jobs_of r (processed e s1 as) = 0"
      using processed_idle [OF ex] by blast
    from final_status_Complete [OF st [unfolded Complete] Cons.prems(3) this]
    show ?thesis using IH P by simp
  next
    case (Fail i)
    have P: "processed e s (a # as) = processed e s1 as" using st Fail by simp
    show ?thesis using IH P final_status_Fail [OF st [unfolded Fail]] by simp
  qed
qed

section \<open>The final persisted state does not depend on the order\<close>

lemma final_status_mset:
  assumes "mset js = mset js'"
  shows "final_status e r s js = final_status e r s js'"
proof -
  have s: "set js = set js'" using assms by (rule mset_eq_setD)
  have f: "failing e r js = failing e r js'" by (simp add: failing_def list_ex_iff s)
  have "mset (filter (\<lambda>j. job_repositoryId j = r) js) =
      mset (filter (\<lambda>j. job_repositoryId j = r) js')"
    using assms by (simp only: mset_filter)
  then have m: "mset (filter (\<lambda>j. job_repositoryId j = r) js) =
      mset (filter (\<lambda>j. job_repositoryId j = r) js')" .
  have j: "jobs_of r js = jobs_of r js'"
    unfolding jobs_of_def using m by (metis size_mset)
  have "sum_mset (mset (map (\<lambda>j. int (job_increments e j))
          (filter (\<lambda>j. job_repositoryId j = r) js))) =
      sum_mset (mset (map (\<lambda>j. int (job_increments e j))
          (filter (\<lambda>j. job_repositoryId j = r) js')))"
    using m by (metis mset_map)
  then have i: "increments e r js = increments e r js'"
    unfolding increments_def by (simp only: sum_mset_sum_list)
  show ?thesis unfolding final_status_def f j i ..
qed

lemma sum_list_mset:
  fixes f :: "'a \<Rightarrow> 'b multiset"
  assumes "mset xs = mset ys"
  shows "sum_list (map f xs) = sum_list (map f ys)"
proof -
  have "sum_mset (mset (map f xs)) = sum_mset (mset (map f ys))"
    using assms by (metis mset_map)
  then show ?thesis by (simp only: sum_mset_sum_list)
qed

lemma string_of_nat_nonempty: "string_of_nat n \<noteq> []"
  by (subst string_of_nat.simps) simp

lemma digit_inj: "a < 10 \<Longrightarrow> b < 10 \<Longrightarrow> digit a = digit b \<Longrightarrow> a = b"
  by (auto simp: digit_def less_Suc_eq numeral_eq_Suc)

lemma string_of_nat_inj: "string_of_nat n = string_of_nat m \<Longrightarrow> n = m"
proof (induction n arbitrary: m rule: less_induct)
  case (less n)
  have small: "string_of_nat k = [digit k]" if "k < 10" for k
    using that by (subst string_of_nat.simps) simp
  have large: "string_of_nat k = string_of_nat (k div 10) @ [digit (k mod 10)]"
    if "\<not> k < 10" for k
    using that by (subst string_of_nat.simps) simp
  show ?case
  proof (cases "n < 10")
    case n: True
    show ?thesis
    proof (cases "m < 10")
      case True
      then show ?thesis using less.prems n digit_inj by (simp add: small)
    next
      case False
      then show ?thesis
        using less.prems n string_of_nat_nonempty [of "m div 10"] by (simp add: small large)
    qed
  next
    case n: False
    show ?thesis
    proof (cases "m < 10")
      case True
      then show ?thesis
        using less.prems n string_of_nat_nonempty [of "n div 10"] by (simp add: small large)
    next
      case False
      then have eq: "string_of_nat (n div 10) = string_of_nat (m div 10)"
        and d: "digit (n mod 10) = digit (m mod 10)"
        using less.prems n by (simp_all add: large)
      have "n div 10 < n" using n by simp
      from less.IH [OF this eq] have "n div 10 = m div 10" .
      moreover have "n mod 10 = m mod 10" using d digit_inj by simp
      ultimately show ?thesis by (metis div_mult_mod_eq)
    qed
  qed
qed

lemma tree_env_ids: "inj (new_id tree_env)" "\<forall>k. new_id tree_env k \<noteq> []"
  by (auto simp: tree_env_def demo_env_def inj_def dest: string_of_nat_inj)

text \<open>
  C9. Take a store that hands out distinct, non-empty identifiers, tables whose
  references are resolved, and a run \<open>r\<close> whose counter covers its waiting jobs. Let the queue
  run to rest twice from that state, each time in any order of dequeuing jobs and of
  delivering \<open>completed\<close> and \<open>failed\<close> events. Then both orders leave the same directory
  rows and the same file rows, each with its parent or directory reference followed to
  the row it names, and the same status of the run.
\<close>

theorem completion_order_independent:
  assumes ids: "inj (new_id e)" "\<forall>k. new_id e k \<noteq> []"
    and store: "store_ok e s0" "refs_closed s0"
    and cover: "int (outstanding r s0) \<le> counter s0 (pending_jobs_key r)"
    and run1: "exec e s0 acts1 = Some s1" "quiescent s1"
    and run2: "exec e s0 acts2 = Some s2" "quiescent s2"
  shows "directory_nodes s1 = directory_nodes s2 \<and> file_nodes s1 = file_nodes s2 \<and>
    repositories s1 r = repositories s2 r"
proof -
  have q: "queue s1 = []" "queue s2 = []" "completedEvents s1 = []" "completedEvents s2 = []"
    using run1(2) run2(2) by (simp_all add: quiescent_def)
  have P: "mset (processed e s0 acts1) = mset (processed e s0 acts2)"
    using processed_unique [OF run1(1) q(1) run2(1) q(2)] .
  note n1 = exec_nodes [OF ids run1(1) store]
  note n2 = exec_nodes [OF ids run2(1) store]
  have "directory_nodes s1 = directory_nodes s2"
    using n1 n2 sum_list_mset [OF P, of "job_directories e"] by simp
  moreover have "file_nodes s1 = file_nodes s2"
    using n1 n2 sum_list_mset [OF P, of "job_files e"] by simp
  moreover have "repositories s1 r = repositories s2 r"
    using exec_final_status [OF run1(1) q(3) cover] exec_final_status [OF run2(1) q(4) cover]
      final_status_mset [OF P, of e r s0] by simp
  ultimately show ?thesis by simp
qed


theorem completion_order_independent_witness:
  "\<exists>s1 s2.
     exec tree_env demo_init
       [Process 0, Process 0, Complete 1, Process 0, Complete 1,
        Process 0, Complete 1, Process 0, Complete 1, Complete 0] = Some s1 \<and>
     exec tree_env demo_init
       [Process 0, Process 1, Process 0, Process 0, Process 0,
        Complete 4, Complete 3, Complete 2, Complete 1, Complete 0] = Some s2 \<and>
     quiescent s1 \<and> quiescent s2 \<and>
     map dir_path (directories s1) = [''a'', ''b'', ''a/x'', ''b/y''] \<and>
     map dir_path (directories s2) = [''a'', ''b'', ''b/y'', ''a/x''] \<and>
     map file_path (files s1) = [''a/f.ts'', ''b/g.ts''] \<and>
     map file_path (files s2) = [''b/g.ts'', ''a/f.ts''] \<and>
     directory_nodes s1 = directory_nodes s2 \<and>
     directory_nodes s2 =
       mset [(''a'', ''R1'', NoReference), (''b'', ''R1'', NoReference),
             (''b/y'', ''R1'', NoReference), (''a/x'', ''R1'', NoReference)] \<and>
     file_nodes s1 = file_nodes s2 \<and>
     file_nodes s2 =
       mset [(''b/g.ts'', ''g.ts'', [], ''R1'', NoReference),
             (''a/f.ts'', ''f.ts'', [], ''R1'', NoReference)] \<and>
     repositories s1 ''R1'' = Some SUCCESS \<and> repositories s2 ''R1'' = Some SUCCESS"
proof -
  let ?acts1 = "[Process 0, Process 0, Complete 1, Process 0, Complete 1,
        Process 0, Complete 1, Process 0, Complete 1, Complete 0]"
  let ?acts2 = "[Process 0, Process 1, Process 0, Process 0, Process 0,
        Complete 4, Complete 3, Complete 2, Complete 1, Complete 0]"
  have "\<exists>s1. exec tree_env demo_init ?acts1 = Some s1 \<and> quiescent s1 \<and>
      map dir_path (directories s1) = [''a'', ''b'', ''a/x'', ''b/y''] \<and>
      map file_path (files s1) = [''a/f.ts'', ''b/g.ts''] \<and>
      repositories s1 ''R1'' = Some SUCCESS"
    by (simp add: model_simps demo_simps tree_env_def tree_fetch_def quiescent_def)
  then obtain s1 where run1: "exec tree_env demo_init ?acts1 = Some s1" "quiescent s1"
    and d1: "map dir_path (directories s1) = [''a'', ''b'', ''a/x'', ''b/y'']"
    and f1: "map file_path (files s1) = [''a/f.ts'', ''b/g.ts'']"
    and r1: "repositories s1 ''R1'' = Some SUCCESS" by (elim exE conjE)
  have "\<exists>s2. exec tree_env demo_init ?acts2 = Some s2 \<and> quiescent s2 \<and>
      map dir_path (directories s2) = [''a'', ''b'', ''b/y'', ''a/x''] \<and>
      map file_path (files s2) = [''b/g.ts'', ''a/f.ts''] \<and>
      directory_nodes s2 =
        mset [(''a'', ''R1'', NoReference), (''b'', ''R1'', NoReference),
              (''b/y'', ''R1'', NoReference), (''a/x'', ''R1'', NoReference)] \<and>
      file_nodes s2 =
        mset [(''b/g.ts'', ''g.ts'', [], ''R1'', NoReference),
              (''a/f.ts'', ''f.ts'', [], ''R1'', NoReference)]"
    by (simp add: model_simps demo_simps tree_env_def tree_fetch_def quiescent_def
        directory_nodes_def file_nodes_def resolve_def)
  then obtain s2 where run2: "exec tree_env demo_init ?acts2 = Some s2" "quiescent s2"
    and d2: "map dir_path (directories s2) = [''a'', ''b'', ''b/y'', ''a/x'']"
    and f2: "map file_path (files s2) = [''b/g.ts'', ''a/f.ts'']"
    and n2: "directory_nodes s2 =
        mset [(''a'', ''R1'', NoReference), (''b'', ''R1'', NoReference),
              (''b/y'', ''R1'', NoReference), (''a/x'', ''R1'', NoReference)]"
      "file_nodes s2 =
        mset [(''b/g.ts'', ''g.ts'', [], ''R1'', NoReference),
              (''a/f.ts'', ''f.ts'', [], ''R1'', NoReference)]"
    by (elim exE conjE)
  have store: "store_ok tree_env demo_init" "refs_closed demo_init"
    by (simp_all add: store_ok_def refs_closed_def demo_init_def)
  have cover: "int (outstanding ''R1'' demo_init) \<le> counter demo_init (pending_jobs_key ''R1'')"
    by (simp add: outstanding_def jobs_of_def demo_simps counter_def)
  note t = completion_order_independent [OF tree_env_ids store cover run1 run2]
  then have "repositories s2 ''R1'' = Some SUCCESS" using r1 by simp
  then show ?thesis
    using t run1 run2 d1 d2 f1 f2 n2 r1 by (intro exI [of _ s1] exI [of _ s2]) simp
qed

end
